theory Spec2Isabelle
  imports Main
begin

section \<open>Tokens, scanner and terminal matchers\<close>

text \<open>
  The parse engine of \<^verbatim>\<open>src/parser/chain.ts\<close> works on a token buffer through the
  classes and functions it imports from \<^verbatim>\<open>./scanner\<close>, \<^verbatim>\<open>./match\<close> and \<^verbatim>\<open>./utils\<close>.
  Objects of the program (tokens, grammar nodes) are compared by reference, so a token is
  named by its position in the token array and a grammar node by its address in an
  explicit store.
\<close>

record token =
  tok_value :: string
  tok_start :: nat
  tok_end :: nat

type_synonym tokref = nat

record scanner =
  sc_tokens :: "token list"
  sc_index :: nat

text \<open>Modelled from the spec: the class Scanner (\<^verbatim>\<open>./scanner\<close>), a cursor over a finite
  token sequence. \<open>read\<close> peeks the token at the cursor, \<open>next\<close> advances, \<open>isEnd\<close> holds
  when the cursor is past the last token, \<open>getRestTokenCount\<close> is the number of tokens
  remaining, \<open>getNextFromToken\<close> the token immediately following a given token,
  \<open>getPrevTokenFromCharacterIndex\<close> the last token whose span ends at or before the
  offset and \<open>getNextTokenFromCharacterIndex\<close> the first token whose span starts at or
  after it. Queries return an absent value out of range.\<close>

definition sc_read :: "scanner \<Rightarrow> tokref option" where
  "sc_read sc = (if sc_index sc < length (sc_tokens sc) then Some (sc_index sc) else None)"

definition sc_next :: "scanner \<Rightarrow> scanner" where
  "sc_next sc = sc\<lparr>sc_index := sc_index sc + 1\<rparr>"

definition isEnd :: "scanner \<Rightarrow> bool" where
  "isEnd sc = (length (sc_tokens sc) \<le> sc_index sc)"

definition getIndex :: "scanner \<Rightarrow> nat" where
  "getIndex sc = sc_index sc"

definition setIndex :: "nat \<Rightarrow> scanner \<Rightarrow> scanner" where
  "setIndex i sc = sc\<lparr>sc_index := i\<rparr>"

definition getRestTokenCount :: "scanner \<Rightarrow> int" where
  "getRestTokenCount sc = int (length (sc_tokens sc)) - int (sc_index sc)"

definition getNextFromToken :: "scanner \<Rightarrow> tokref \<Rightarrow> tokref option" where
  "getNextFromToken sc t = (if t + 1 < length (sc_tokens sc) then Some (t + 1) else None)"

definition getPrevTokenFromCharacterIndex :: "scanner \<Rightarrow> nat \<Rightarrow> tokref option" where
  "getPrevTokenFromCharacterIndex sc offset =
     (case filter (\<lambda>i. tok_end (sc_tokens sc ! i) \<le> offset) [0 ..< length (sc_tokens sc)] of
        [] \<Rightarrow> None
      | i # is \<Rightarrow> Some (last (i # is)))"

definition getNextTokenFromCharacterIndex :: "scanner \<Rightarrow> nat \<Rightarrow> tokref option" where
  "getNextTokenFromCharacterIndex sc offset =
     find (\<lambda>i. offset \<le> tok_start (sc_tokens sc ! i)) [0 ..< length (sc_tokens sc)]"

text \<open>The descriptor of a terminal, \<^verbatim>\<open>IMatching\<close>: its type and its value, a string or
  a boolean.\<close>

datatype matching_type = TString | TLoose | TSpecial

datatype matching_value = VString string | VBoolean bool

record matching =
  m_type :: matching_type
  m_value :: matching_value

text \<open>The key the results are deduplicated by, \<^verbatim>\<open>each.type + each.value\<close>: JavaScript
  string concatenation of the type with the value.\<close>

definition type_string :: "matching_type \<Rightarrow> string" where
  "type_string t = (case t of TString \<Rightarrow> ''string'' | TLoose \<Rightarrow> ''loose'' | TSpecial \<Rightarrow> ''special'')"

definition value_string :: "matching_value \<Rightarrow> string" where
  "value_string v =
     (case v of VString s \<Rightarrow> s | VBoolean b \<Rightarrow> (if b then ''true'' else ''false''))"

definition matching_key :: "matching \<Rightarrow> string" where
  "matching_key m = type_string (m_type m) @ value_string (m_value m)"

text \<open>Modelled from the spec: the terminal matchers of \<^verbatim>\<open>./match\<close>. A matcher takes the
  scanner and a cost flag; with the flag it advances the scanner on success, without it it
  only peeks. \<open>match(word)\<close> matches when the next token's text equals the word,
  \<open>matchTrue\<close> and \<open>matchFalse\<close> are the loose sentinels that consume nothing, and a
  user's matcher decides on the next token.\<close>

datatype match_function =
    MatchWord string
  | MatchTrue
  | MatchFalse
  | MatchUser "token \<Rightarrow> bool"

record imatch =
  im_match :: bool
  im_token :: "tokref option"

definition matchToken :: "(token \<Rightarrow> bool) \<Rightarrow> scanner \<Rightarrow> bool \<Rightarrow> imatch \<times> scanner" where
  "matchToken compare sc isCostToken =
     (case sc_read sc of
        None \<Rightarrow> (\<lparr>im_match = False, im_token = None\<rparr>, sc)
      | Some t \<Rightarrow>
          if compare (sc_tokens sc ! t)
          then (\<lparr>im_match = True, im_token = Some t\<rparr>, if isCostToken then sc_next sc else sc)
          else (\<lparr>im_match = False, im_token = Some t\<rparr>, sc))"

definition run_match :: "match_function \<Rightarrow> scanner \<Rightarrow> bool \<Rightarrow> imatch \<times> scanner" where
  "run_match f sc isCostToken =
     (case f of
        MatchWord w \<Rightarrow> matchToken (\<lambda>t. tok_value t = w) sc isCostToken
      | MatchTrue \<Rightarrow> (\<lparr>im_match = True, im_token = None\<rparr>, sc)
      | MatchFalse \<Rightarrow> (\<lparr>im_match = False, im_token = None\<rparr>, sc)
      | MatchUser p \<Rightarrow> matchToken p sc isCostToken)"

section \<open>Abstract syntax values\<close>

text \<open>\<^verbatim>\<open>IAst\<close> is \<^verbatim>\<open>IToken | any\<close>: a token, an array of values, \<^verbatim>\<open>null\<close>, or a hole of a
  sparse array (\<^verbatim>\<open>undefined\<close>).\<close>

datatype ast = AUndefined | ANull | AToken tokref | AArray "ast list"

text \<open>\<^verbatim>\<open>arr[i] = v\<close> on a JavaScript array: past the end the array grows and the gap is
  holes.\<close>

definition array_set :: "ast list \<Rightarrow> nat \<Rightarrow> ast \<Rightarrow> ast list" where
  "array_set arr i v =
     (if i < length arr then arr[i := v]
      else arr @ replicate (i - length arr) AUndefined @ [v])"

text \<open>lodash \<^verbatim>\<open>set(arr, `${p}.${i}`, v)\<close>: the row \<open>arr[p]\<close> is kept when it is an
  object and replaced by a new array otherwise, then \<open>v\<close> is stored at index \<open>i\<close> of the
  row. A token is an object too: the value becomes a property of it and the array keeps
  the token.\<close>

definition lodash_set :: "ast list \<Rightarrow> nat \<Rightarrow> nat \<Rightarrow> ast \<Rightarrow> ast list" where
  "lodash_set arr p i v =
     (case (if p < length arr then arr ! p else AUndefined) of
        AArray row \<Rightarrow> array_set arr p (AArray (array_set row i v))
      | AToken t \<Rightarrow> arr
      | _ \<Rightarrow> array_set arr p (AArray (array_set [] i v)))"

section \<open>Errors\<close>

text \<open>The first four are the ones the source raises: the unknown element of
  \<^verbatim>\<open>createNodeByElement\<close>, the two call budgets, and the \<^verbatim>\<open>TypeError\<close> of reading a
  property of \<^verbatim>\<open>null\<close> or \<^verbatim>\<open>undefined\<close> or calling \<open>reduce\<close> on \<^verbatim>\<open>undefined\<close>.
  \<open>IllFormedGraph\<close> stands for a store the TypeScript types exclude (a dangling address,
  a parent that is no tree or chain node, a child index that is not the node's place in
  its parent).\<close>

datatype error =
    UnknownElement
  | CallVisiterExceeded
  | CallParentExceeded
  | TypeError
  | IllFormedGraph

section \<open>Grammar elements\<close>

text \<open>The elements of a rule body, by the cases \<^verbatim>\<open>createNodeByElement\<close> tells apart:
  an array, a string, a boolean, a function whose prototype is named \<open>match\<close> (with its
  display name and matcher), a function whose prototype is named \<open>chainNodeFactory\<close>
  (the result of \<^verbatim>\<open>chain(...elements)(solveAst)\<close>, with its \<open>isPlus\<close> mark), any other
  function (a rule, known by its name), and anything else. The elements are typed
  \<^verbatim>\<open>any\<close>, so \<^verbatim>\<open>null\<close> and \<^verbatim>\<open>undefined\<close> can stand in a rule body: they are \<open>ENullish\<close>,
  apart from the other values (numbers, plain objects) because reading a property of
  them raises.\<close>

datatype element =
    EArray "element list"
  | EString string
  | EBoolean bool
  | EMatch string "token \<Rightarrow> bool"
  | EChainNodeFactory "element list" "ast list \<Rightarrow> ast" bool
  | EFunction string
  | ENullish
  | EOther

text \<open>A rule \<^verbatim>\<open>const foo = () => chain(...elements)(solveAst)\<close>: what calling the
  function of that name returns.\<close>

type_synonym grammar = "string \<Rightarrow> element list \<times> (ast list \<Rightarrow> ast)"

text \<open>\<^verbatim>\<open>element.name\<close>: the name of a function, \<^verbatim>\<open>undefined\<close> (here \<open>None\<close>) on
  strings, booleans, arrays and other values, and a \<^verbatim>\<open>TypeError\<close> on \<^verbatim>\<open>null\<close> and
  \<^verbatim>\<open>undefined\<close>. The name of a matcher function is not used by the engine.\<close>

definition element_name :: "element \<Rightarrow> error + string option" where
  "element_name e =
     (case e of
        EFunction n \<Rightarrow> Inr (Some n)
      | EChainNodeFactory es f p \<Rightarrow> Inr (Some ''chainNodeFactory'')
      | EMatch d p \<Rightarrow> Inr (Some [])
      | ENullish \<Rightarrow> Inl TypeError
      | _ \<Rightarrow> Inr None)"

text \<open>\<^verbatim>\<open>element.name === parentFunctionName\<close>: the parent's name is a string or
  \<^verbatim>\<open>null\<close>, and \<^verbatim>\<open>undefined === null\<close> is false.\<close>

definition name_equals :: "string option \<Rightarrow> string option \<Rightarrow> bool" where
  "name_equals en pn = (case (en, pn) of (Some a, Some b) \<Rightarrow> a = b | _ \<Rightarrow> False)"

text \<open>\<^verbatim>\<open>Array.prototype.filter\<close> with a predicate that can raise: the predicate runs on
  the elements in order and the first raise ends the filter.\<close>

fun filter_raising :: "('a \<Rightarrow> error + bool) \<Rightarrow> 'a list \<Rightarrow> error + 'a list" where
  "filter_raising p [] = Inr []"
| "filter_raising p (x # xs) =
     (case p x of
        Inl e \<Rightarrow> Inl e
      | Inr b \<Rightarrow>
          (case filter_raising p xs of
             Inl e \<Rightarrow> Inl e
           | Inr ys \<Rightarrow> Inr (if b then x # ys else ys)))"

text \<open>\<^verbatim>\<open>solveDirectLeftRecursion\<close> computes the left-recursive and the normal elements,
  uses neither, and returns \<^verbatim>\<open>elements\<close>.\<close>

definition solveDirectLeftRecursion :: "element list \<Rightarrow> string option \<Rightarrow> error + element list" where
  "solveDirectLeftRecursion elements parentFunctionName =
     (case filter_raising
             (\<lambda>element. case element_name element of
                           Inl e \<Rightarrow> Inl e
                         | Inr name \<Rightarrow> Inr (name_equals name parentFunctionName)) elements of
        Inl e \<Rightarrow> Inl e
      | Inr leftRecursionElements \<Rightarrow>
          (case filter_raising
                  (\<lambda>element. case element_name element of
                                Inl e \<Rightarrow> Inl e
                              | Inr name \<Rightarrow> Inr (\<not> name_equals name parentFunctionName)) elements of
             Inl e \<Rightarrow> Inl e
           | Inr normalElements \<Rightarrow> Inr elements))"

section \<open>The grammar graph\<close>

text \<open>Nodes live in a store and are named by their address; \<open>parentNode\<close> is \<^verbatim>\<open>null\<close>
  (here \<open>None\<close>) at the root. A version is \<^verbatim>\<open>null\<close> until the node is first stamped.\<close>

type_synonym ref = nat

record match_node =
  mn_parentNode :: "ref option"
  mn_matchFunction :: match_function
  mn_matching :: matching
  mn_parentIndex :: nat

record function_node =
  fn_parentNode :: "ref option"
  fn_chainFunction :: string
  fn_parentIndex :: nat

record tree_node =
  tn_parentNode :: "ref option"
  tn_childs :: "ref list"
  tn_headIndex :: nat
  tn_version :: "nat option"
  tn_parentIndex :: nat

record chain_node =
  cn_parentNode :: "ref option"
  cn_childs :: "ref list"
  cn_astResults :: "ast list"
  cn_headIndex :: nat
  cn_functionName :: "string option"
  cn_solveAst :: "ast list \<Rightarrow> ast"
  cn_version :: "nat option"
  cn_isPlus :: bool
  cn_plusHeadIndex :: nat
  cn_parentIndex :: nat

datatype node =
    MatchNode match_node
  | FunctionNode function_node
  | TreeNode tree_node
  | ChainNode chain_node

fun parentNode :: "node \<Rightarrow> ref option" where
  "parentNode (MatchNode m) = mn_parentNode m"
| "parentNode (FunctionNode f) = fn_parentNode f"
| "parentNode (TreeNode t) = tn_parentNode t"
| "parentNode (ChainNode c) = cn_parentNode c"

fun parentIndex :: "node \<Rightarrow> nat" where
  "parentIndex (MatchNode m) = mn_parentIndex m"
| "parentIndex (FunctionNode f) = fn_parentIndex f"
| "parentIndex (TreeNode t) = tn_parentIndex t"
| "parentIndex (ChainNode c) = cn_parentIndex c"

text \<open>\<^verbatim>\<open>ParentNode = TreeNode | ChainNode\<close>: the nodes with children, a head index and a
  version.\<close>

fun isParentNode :: "node \<Rightarrow> bool" where
  "isParentNode (TreeNode t) = True"
| "isParentNode (ChainNode c) = True"
| "isParentNode _ = False"

fun childs :: "node \<Rightarrow> ref list" where
  "childs (TreeNode t) = tn_childs t"
| "childs (ChainNode c) = cn_childs c"
| "childs _ = []"

fun headIndex :: "node \<Rightarrow> nat" where
  "headIndex (TreeNode t) = tn_headIndex t"
| "headIndex (ChainNode c) = cn_headIndex c"
| "headIndex _ = 0"

fun version :: "node \<Rightarrow> nat option" where
  "version (TreeNode t) = tn_version t"
| "version (ChainNode c) = cn_version c"
| "version _ = None"

fun astResults :: "node \<Rightarrow> ast list" where
  "astResults (ChainNode c) = cn_astResults c"
| "astResults _ = []"

fun set_childs :: "ref list \<Rightarrow> node \<Rightarrow> node" where
  "set_childs cs (TreeNode t) = TreeNode (t\<lparr>tn_childs := cs\<rparr>)"
| "set_childs cs (ChainNode c) = ChainNode (c\<lparr>cn_childs := cs\<rparr>)"
| "set_childs cs n = n"

fun set_headIndex :: "nat \<Rightarrow> node \<Rightarrow> node" where
  "set_headIndex i (TreeNode t) = TreeNode (t\<lparr>tn_headIndex := i\<rparr>)"
| "set_headIndex i (ChainNode c) = ChainNode (c\<lparr>cn_headIndex := i\<rparr>)"
| "set_headIndex i n = n"

fun set_version :: "nat \<Rightarrow> node \<Rightarrow> node" where
  "set_version v (TreeNode t) = TreeNode (t\<lparr>tn_version := Some v\<rparr>)"
| "set_version v (ChainNode c) = ChainNode (c\<lparr>cn_version := Some v\<rparr>)"
| "set_version v n = n"

text \<open>\<^verbatim>\<open>childs[i]\<close>: \<^verbatim>\<open>undefined\<close> out of range.\<close>

definition child_at :: "ref list \<Rightarrow> nat \<Rightarrow> ref option" where
  "child_at cs i = (if i < length cs then Some (cs ! i) else None)"

section \<open>The state of a parse\<close>

record chance =
  ch_node :: ref
  ch_headIndex :: nat
  ch_tokenIndex :: nat

record last_match =
  lm_restTokenCount :: int
  lm_matchNode :: ref
  lm_token :: "tokref option"

text \<open>An entry of a rule's candidate list, \<^verbatim>\<open>MatchNode | string\<close>; \<^verbatim>\<open>concat(undefined)\<close>
  can also leave an \<^verbatim>\<open>undefined\<close> entry.\<close>

datatype first_or_function = FMatchNode ref | FName string | FUndefined

text \<open>
  One record holds everything the engine mutates: the store of nodes with its next free
  address, the fields of class \<^verbatim>\<open>Parser\<close> (version counter, root, FIRST-set tables,
  related-set), the fields of class \<^verbatim>\<open>VisiterStore\<close> (scanner, version, rest chances), the
  variables \<^verbatim>\<open>createParser\<close> closes over and the result list \<^verbatim>\<open>findNextMatchNodes\<close> closes
  over.
\<close>

record state =
  heap :: "ref \<Rightarrow> node option"
  nextRef :: ref
  parser_version :: nat
  rootChainNode :: "ref option"
  firstSet :: "string \<Rightarrow> ref list option"
  firstOrFunctionSet :: "string \<Rightarrow> first_or_function list option option"
  relatedSet :: "string \<Rightarrow> string list option"
  scanner :: scanner
  store_version :: nat
  restChances :: "chance list"
  success :: bool
  result_ast :: ast
  callVisiterCount :: nat
  callParentCount :: nat
  lastMatchUnderShortestRestToken :: "last_match option"
  cursorPrevToken :: "tokref option"
  cursorPrevNodes :: "ref list"
  nextMatchNodes :: "ref list"

definition alloc :: "node \<Rightarrow> state \<Rightarrow> ref \<times> state" where
  "alloc n s = (nextRef s, s\<lparr>heap := (heap s)(nextRef s \<mapsto> n), nextRef := nextRef s + 1\<rparr>)"

definition update_node :: "ref \<Rightarrow> (node \<Rightarrow> node) \<Rightarrow> state \<Rightarrow> state" where
  "update_node r f s =
     (case heap s r of None \<Rightarrow> s | Some n \<Rightarrow> s\<lparr>heap := (heap s)(r \<mapsto> f n)\<rparr>)"

definition getNewVersion :: "state \<Rightarrow> nat \<times> state" where
  "getNewVersion s = (parser_version s + 1, s\<lparr>parser_version := parser_version s + 1\<rparr>)"

section \<open>The builder\<close>

text \<open>\<^verbatim>\<open>createNodeByElement\<close>, the \<^verbatim>\<open>element.map\<close> over the children (with the child index)
  and the body of \<^verbatim>\<open>chainNodeFactory\<close> up to the child list. A node is allocated before
  its children, as the source constructs it.\<close>

function createNodeByElement :: "element \<Rightarrow> ref option \<Rightarrow> nat \<Rightarrow> state \<Rightarrow> error + ref \<times> state"
  and createChilds :: "element list \<Rightarrow> ref \<Rightarrow> nat \<Rightarrow> state \<Rightarrow> error + ref list \<times> state"
  and newChainNode ::
    "element list \<Rightarrow> (ast list \<Rightarrow> ast) \<Rightarrow> ref option \<Rightarrow> string option \<Rightarrow> nat \<Rightarrow> state
      \<Rightarrow> error + ref \<times> state"
where
  "createNodeByElement (EArray es) parent pidx s =
     (let (treeNode, s1) =
            alloc (TreeNode \<lparr>tn_parentNode = parent, tn_childs = [], tn_headIndex = 0,
                     tn_version = None, tn_parentIndex = pidx\<rparr>) s
      in case createChilds es treeNode 0 s1 of
           Inl e \<Rightarrow> Inl e
         | Inr (cs, s2) \<Rightarrow> Inr (treeNode, update_node treeNode (set_childs cs) s2))"
| "createNodeByElement (EString w) parent pidx s =
     Inr (alloc (MatchNode \<lparr>mn_parentNode = parent, mn_matchFunction = MatchWord w,
                   mn_matching = \<lparr>m_type = TString, m_value = VString w\<rparr>,
                   mn_parentIndex = pidx\<rparr>) s)"
| "createNodeByElement (EBoolean b) parent pidx s =
     (if b
      then Inr (alloc (MatchNode \<lparr>mn_parentNode = parent, mn_matchFunction = MatchTrue,
                         mn_matching = \<lparr>m_type = TLoose, m_value = VBoolean True\<rparr>,
                         mn_parentIndex = pidx\<rparr>) s)
      else Inr (alloc (MatchNode \<lparr>mn_parentNode = parent, mn_matchFunction = MatchFalse,
                         mn_matching = \<lparr>m_type = TLoose, m_value = VBoolean False\<rparr>,
                         mn_parentIndex = pidx\<rparr>) s))"
| "createNodeByElement (EMatch displayName p) parent pidx s =
     Inr (alloc (MatchNode \<lparr>mn_parentNode = parent, mn_matchFunction = MatchUser p,
                   mn_matching = \<lparr>m_type = TSpecial, m_value = VString displayName\<rparr>,
                   mn_parentIndex = pidx\<rparr>) s)"
| "createNodeByElement (EChainNodeFactory es solveAst isPlus) parent pidx s =
     (case newChainNode es solveAst parent None pidx s of
        Inl e \<Rightarrow> Inl e
      | Inr (chainNode, s1) \<Rightarrow>
          Inr (chainNode,
               if isPlus
               then update_node chainNode
                      (\<lambda>n. case n of ChainNode c \<Rightarrow> ChainNode (c\<lparr>cn_isPlus := True\<rparr>) | _ \<Rightarrow> n) s1
               else s1))"
| "createNodeByElement (EFunction name) parent pidx s =
     Inr (alloc (FunctionNode \<lparr>fn_parentNode = parent, fn_chainFunction = name,
                   fn_parentIndex = pidx\<rparr>) s)"
| "createNodeByElement ENullish parent pidx s = Inl UnknownElement"
| "createNodeByElement EOther parent pidx s = Inl UnknownElement"
| "createChilds [] parent i s = Inr ([], s)"
| "createChilds (e # es) parent i s =
     (case createNodeByElement e (Some parent) i s of
        Inl err \<Rightarrow> Inl err
      | Inr (c, s1) \<Rightarrow>
          (case createChilds es parent (i + 1) s1 of
             Inl err \<Rightarrow> Inl err
           | Inr (cs, s2) \<Rightarrow> Inr (c # cs, s2)))"
| "newChainNode elements solveAst parent functionName pidx s =
     (let (chainNode, s1) =
            alloc (ChainNode \<lparr>cn_parentNode = parent, cn_childs = [], cn_astResults = [],
                     cn_headIndex = 0, cn_functionName = functionName, cn_solveAst = solveAst,
                     cn_version = None, cn_isPlus = False, cn_plusHeadIndex = 0,
                     cn_parentIndex = pidx\<rparr>) s
      in case solveDirectLeftRecursion elements functionName of
           Inl e \<Rightarrow> Inl e
         | Inr elements' \<Rightarrow>
             (case createChilds elements' chainNode 0 s1 of
                Inl e \<Rightarrow> Inl e
              | Inr (cs, s2) \<Rightarrow> Inr (chainNode, update_node chainNode (set_childs cs) s2)))"
  by pat_completeness auto
termination
  by (relation "measure (\<lambda>x. case x of
         Inl (e, _) \<Rightarrow> 2 * size e
       | Inr (Inl (es, _)) \<Rightarrow> 2 * size_list size es
       | Inr (Inr (es, _)) \<Rightarrow> 2 * size_list size es + 1)")
     (auto simp: solveDirectLeftRecursion_def split: sum.splits)

section \<open>The FIRST-set cache\<close>

definition truthy_name :: "string option \<Rightarrow> bool" where
  "truthy_name n = (case n of None \<Rightarrow> False | Some x \<Rightarrow> x \<noteq> [])"

definition relatedSet_add :: "string \<Rightarrow> string \<Rightarrow> state \<Rightarrow> state" where
  "relatedSet_add relatedFunctionName functionName s =
     (case relatedSet s relatedFunctionName of
        Some names \<Rightarrow>
          s\<lparr>relatedSet := (relatedSet s)(relatedFunctionName \<mapsto>
               (if functionName \<in> set names then names else names @ [functionName]))\<rparr>
      | None \<Rightarrow> s\<lparr>relatedSet := (relatedSet s)(relatedFunctionName \<mapsto> [functionName])\<rparr>)"

text \<open>\<^verbatim>\<open>getFirstOrFunctionSet\<close> descends through the child lists. The first argument bounds
  the depth of the descent (the call stack); without a result within the bound the value
  is \<open>None\<close>. A chain node without a first child returns \<^verbatim>\<open>undefined\<close> (the inner
  \<open>None\<close>), which \<^verbatim>\<open>concat\<close> appends as one entry.\<close>

fun getFirstOrFunctionSet ::
    "nat \<Rightarrow> ref \<Rightarrow> string \<Rightarrow> state \<Rightarrow> (error + first_or_function list option \<times> state) option"
  and getFirstOrFunctionSet_reduce ::
    "nat \<Rightarrow> ref list \<Rightarrow> string \<Rightarrow> first_or_function list \<Rightarrow> state
      \<Rightarrow> (error + first_or_function list \<times> state) option"
where
  "getFirstOrFunctionSet 0 node functionName s = None"
| "getFirstOrFunctionSet (Suc k) node functionName s =
     (case heap s node of
        None \<Rightarrow> Some (Inl IllFormedGraph)
      | Some (ChainNode c) \<Rightarrow>
          (case cn_childs c of
             [] \<Rightarrow> Some (Inr (None, s))
           | c0 # cs \<Rightarrow> getFirstOrFunctionSet k c0 functionName s)
      | Some (TreeNode t) \<Rightarrow>
          (case getFirstOrFunctionSet_reduce k (tn_childs t) functionName [] s of
             None \<Rightarrow> None
           | Some (Inl e) \<Rightarrow> Some (Inl e)
           | Some (Inr (all, s1)) \<Rightarrow> Some (Inr (Some all, s1)))
      | Some (MatchNode m) \<Rightarrow> Some (Inr (Some [FMatchNode node], s))
      | Some (FunctionNode f) \<Rightarrow>
          Some (Inr (Some [FName (fn_chainFunction f)],
                     relatedSet_add (fn_chainFunction f) functionName s)))"
| "getFirstOrFunctionSet_reduce k [] functionName all s = Some (Inr (all, s))"
| "getFirstOrFunctionSet_reduce k (next # rest) functionName all s =
     (case getFirstOrFunctionSet k next functionName s of
        None \<Rightarrow> None
      | Some (Inl e) \<Rightarrow> Some (Inl e)
      | Some (Inr (r, s1)) \<Rightarrow>
          getFirstOrFunctionSet_reduce k rest functionName
            (all @ (case r of None \<Rightarrow> [FUndefined] | Some xs \<Rightarrow> xs)) s1)"

fun isFMatchNode :: "first_or_function \<Rightarrow> bool" where
  "isFMatchNode (FMatchNode r) = True"
| "isFMatchNode _ = False"

fun matchNodes_of :: "first_or_function list \<Rightarrow> ref list" where
  "matchNodes_of [] = []"
| "matchNodes_of (FMatchNode r # xs) = r # matchNodes_of xs"
| "matchNodes_of (x # xs) = matchNodes_of xs"

text \<open>The \<^verbatim>\<open>reduce\<close> of \<^verbatim>\<open>solveFirstSet\<close>: a name whose FIRST set is published is replaced by
  that set, every other entry is kept.\<close>

fun solveFirstSet_reduce :: "state \<Rightarrow> first_or_function list \<Rightarrow> first_or_function list
    \<Rightarrow> first_or_function list" where
  "solveFirstSet_reduce s [] all = all"
| "solveFirstSet_reduce s (FName name # rest) all =
     (case firstSet s name of
        Some nodes \<Rightarrow> solveFirstSet_reduce s rest (all @ map FMatchNode nodes)
      | None \<Rightarrow> solveFirstSet_reduce s rest (all @ [FName name]))"
| "solveFirstSet_reduce s (x # rest) all = solveFirstSet_reduce s rest (all @ [x])"

text \<open>\<^verbatim>\<open>solveFirstSet\<close>. The last statement of the source,
  \<^verbatim>\<open>relatedFunctionNames.forEach(relatedFunctionName => solveFirstSet)\<close>, evaluates the
  function value for every related name and calls nothing: the state stays as it is.\<close>

definition solveFirstSet :: "string \<Rightarrow> state \<Rightarrow> error + state" where
  "solveFirstSet functionName s =
     (if firstSet s functionName \<noteq> None then Inr s
      else case firstOrFunctionSet s functionName of
             None \<Rightarrow> Inl TypeError
           | Some None \<Rightarrow> Inl TypeError
           | Some (Some firstMatchNodes) \<Rightarrow>
               (let newFirstMatchNodes = solveFirstSet_reduce s firstMatchNodes [];
                    s1 = s\<lparr>firstOrFunctionSet :=
                            (firstOrFunctionSet s)(functionName \<mapsto> Some newFirstMatchNodes)\<rparr>
                in if list_all isFMatchNode newFirstMatchNodes
                   then (let s2 = s1\<lparr>firstSet :=
                                  (firstSet s1)(functionName \<mapsto> matchNodes_of newFirstMatchNodes)\<rparr>
                         in case relatedSet s2 functionName of
                              Some relatedFunctionNames \<Rightarrow>
                                Inr (fold (\<lambda>relatedFunctionName st. st) relatedFunctionNames s2)
                            | None \<Rightarrow> Inr s2)
                   else Inr s1))"

text \<open>\<^verbatim>\<open>generateFirstSet\<close>; the descent is bounded by the number of nodes of the store.\<close>

definition generateFirstSet :: "ref \<Rightarrow> state \<Rightarrow> (error + state) option" where
  "generateFirstSet node s =
     (case heap s node of
        Some (ChainNode c) \<Rightarrow>
          (case cn_functionName c of
             None \<Rightarrow> Some (Inl IllFormedGraph)
           | Some functionName \<Rightarrow>
               if firstSet s functionName \<noteq> None then Some (Inr s)
               else (case getFirstOrFunctionSet (nextRef s) node functionName s of
                       None \<Rightarrow> None
                     | Some (Inl e) \<Rightarrow> Some (Inl e)
                     | Some (Inr (firstMatchNodes, s1)) \<Rightarrow>
                         Some (solveFirstSet functionName
                                 (s1\<lparr>firstOrFunctionSet :=
                                       (firstOrFunctionSet s1)(functionName \<mapsto> firstMatchNodes)\<rparr>))))
      | _ \<Rightarrow> Some (Inl IllFormedGraph))"

text \<open>\<^verbatim>\<open>chainNodeFactory\<close>: the chain node, and the FIRST set of a named rule.\<close>

definition chainNodeFactory ::
    "element list \<Rightarrow> (ast list \<Rightarrow> ast) \<Rightarrow> ref option \<Rightarrow> string option \<Rightarrow> nat \<Rightarrow> state
      \<Rightarrow> (error + ref \<times> state) option" where
  "chainNodeFactory elements solveAst parent functionName pidx s =
     (case newChainNode elements solveAst parent functionName pidx s of
        Inl e \<Rightarrow> Some (Inl e)
      | Inr (chainNode, s1) \<Rightarrow>
          if truthy_name functionName
          then (case generateFirstSet chainNode s1 of
                  None \<Rightarrow> None
                | Some (Inl e) \<Rightarrow> Some (Inl e)
                | Some (Inr s2) \<Rightarrow> Some (Inr (chainNode, s2)))
          else Some (Inr (chainNode, s1)))"

text \<open>\<^verbatim>\<open>FunctionNode.run\<close>: the rule's function is called and its factory builds the chain
  node under the function node's parent, named after the function.\<close>

definition functionNode_run :: "grammar \<Rightarrow> function_node \<Rightarrow> state \<Rightarrow> (error + ref \<times> state) option" where
  "functionNode_run g f s =
     chainNodeFactory (fst (g (fn_chainFunction f))) (snd (g (fn_chainFunction f)))
       (fn_parentNode f) (Some (fn_chainFunction f)) (fn_parentIndex f) s"

section \<open>The visiter\<close>

text \<open>Class \<^verbatim>\<open>VisiterOption\<close>. The four optional callbacks are those \<^verbatim>\<open>createParser\<close>
  installs (a flag says whether the callback is present); \<open>onMatchNode\<close> is the handler
  of \<^verbatim>\<open>createParser\<close> or that of \<^verbatim>\<open>findNextMatchNodes\<close>.\<close>

datatype match_handler = ParserOnMatchNode | ProbeOnMatchNode

record visiter_option =
  onCallVisiter :: bool
  onVisiterNextNode :: bool
  onSuccess :: bool
  onFail :: bool
  generateAst :: bool
  onMatchNode :: match_handler
  enableFirstSet :: bool

text \<open>The options of the main traversal (\<^verbatim>\<open>generateAst\<close> and \<^verbatim>\<open>enableFirstSet\<close> are the
  defaults of the class) and of the next-match probe.\<close>

definition parserOption :: visiter_option where
  "parserOption = \<lparr>onCallVisiter = True, onVisiterNextNode = True, onSuccess = True,
     onFail = True, generateAst = True, onMatchNode = ParserOnMatchNode,
     enableFirstSet = True\<rparr>"

definition probeOption :: visiter_option where
  "probeOption = \<lparr>onCallVisiter = False, onVisiterNextNode = False, onSuccess = False,
     onFail = False, generateAst = False, onMatchNode = ProbeOnMatchNode,
     enableFirstSet = False\<rparr>"

definition MAX_VISITER_CALL :: nat where
  "MAX_VISITER_CALL = 10000000"

text \<open>\<^verbatim>\<open>visiter\<close> and \<^verbatim>\<open>visiterNextNode\<close> are wrapped by \<^verbatim>\<open>tailCallOptimize\<close> and call each
  other, and \<^verbatim>\<open>tryChances\<close>, in tail position only: a call is the next thing that runs.
  The traversal is a machine whose control says which of the two runs next, on which
  node, or that the traversal has returned. Every call of \<^verbatim>\<open>visiter\<close> in the source passes a
  node object (the root, a child, a parent or the node of a chance), so the guard
  \<^verbatim>\<open>if (!node) return false\<close> has no branch here; a reference that the store does not hold,
  which the builder never produces, is the error \<^verbatim>\<open>IllFormedGraph\<close>.\<close>

datatype control = CVisiter ref | CVisiterNextNode ref ast | CReturn

definition resetHeadByVersion_node :: "nat \<Rightarrow> node \<Rightarrow> node" where
  "resetHeadByVersion_node storeVersion n =
     (if version n \<noteq> Some storeVersion
      then (case set_headIndex 0 (set_version storeVersion n) of
              ChainNode c \<Rightarrow> ChainNode (c\<lparr>cn_astResults := []\<rparr>)
            | n' \<Rightarrow> n')
      else n)"

definition resetHeadByVersion :: "ref \<Rightarrow> state \<Rightarrow> state" where
  "resetHeadByVersion node s = update_node node (resetHeadByVersion_node (store_version s)) s"

text \<open>\<^verbatim>\<open>resetParentsHeadIndexAndVersion\<close> climbs the parents; on a store whose parent
  links run in a circle it does not return.\<close>

partial_function (option) resetParentsHeadIndexAndVersion ::
    "(ref \<Rightarrow> node option) \<Rightarrow> ref \<Rightarrow> nat \<Rightarrow> (error + (ref \<Rightarrow> node option)) option" where
  "resetParentsHeadIndexAndVersion h node v =
     (case h node of
        None \<Rightarrow> Some (Inl IllFormedGraph)
      | Some n \<Rightarrow>
          (case parentNode n of
             None \<Rightarrow> Some (Inr h)
           | Some p \<Rightarrow>
               (case h p of
                  None \<Rightarrow> Some (Inl IllFormedGraph)
                | Some pn \<Rightarrow>
                    if isParentNode pn
                    then resetParentsHeadIndexAndVersion
                           (h(p \<mapsto> set_version v
                                (set_headIndex
                                   (if parentIndex n + 1 > length (childs pn)
                                    then length (childs pn) else parentIndex n + 1) pn)))
                           p v
                    else Some (Inl IllFormedGraph))))"

definition tryChances :: "visiter_option \<Rightarrow> ref \<Rightarrow> state \<Rightarrow> (error + control \<times> state) option" where
  "tryChances vo node s =
     (let (v, s1) = getNewVersion s;
          s2 = s1\<lparr>store_version := v\<rparr>
      in if restChances s2 = []
         then Some (Inr (CReturn, if onFail vo then s2\<lparr>success := False\<rparr> else s2))
         else
           (let recentChance = last (restChances s2);
                s3 = s2\<lparr>restChances := butlast (restChances s2)\<rparr>;
                s4 = s3\<lparr>scanner := setIndex (ch_tokenIndex recentChance) (scanner s3)\<rparr>
            in case heap s4 (ch_node recentChance) of
                 None \<Rightarrow> Some (Inl IllFormedGraph)
               | Some n \<Rightarrow>
                   if \<not> isParentNode n then Some (Inl IllFormedGraph)
                   else
                     (let s5 = update_node (ch_node recentChance)
                                 (set_headIndex (ch_headIndex recentChance)) s4;
                          s6 = update_node (ch_node recentChance)
                                 (set_version (store_version s5)) s5
                      in case resetParentsHeadIndexAndVersion (heap s6) (ch_node recentChance)
                                (store_version s6) of
                           None \<Rightarrow> None
                         | Some (Inl e) \<Rightarrow> Some (Inl e)
                         | Some (Inr h) \<Rightarrow>
                             Some (Inr (CVisiter (ch_node recentChance), s6\<lparr>heap := h\<rparr>)))))"

text \<open>The callbacks of \<^verbatim>\<open>createParser\<close>.\<close>

definition parser_onCallVisiter :: "state \<Rightarrow> error + state" where
  "parser_onCallVisiter s =
     (let s1 = s\<lparr>callVisiterCount := callVisiterCount s + 1\<rparr>
      in if callVisiterCount s1 > MAX_VISITER_CALL then Inl CallVisiterExceeded else Inr s1)"

definition parser_onVisiterNextNode :: "state \<Rightarrow> error + state" where
  "parser_onVisiterNextNode s =
     (let s1 = s\<lparr>callParentCount := callParentCount s + 1\<rparr>
      in if callParentCount s1 > MAX_VISITER_CALL then Inl CallParentExceeded else Inr s1)"

definition parser_onSuccess :: "state \<Rightarrow> error + state" where
  "parser_onSuccess s =
     (case rootChainNode s of
        None \<Rightarrow> Inl IllFormedGraph
      | Some root \<Rightarrow>
          (case heap s root of
             Some (ChainNode c) \<Rightarrow>
               Inr (s\<lparr>success := True, result_ast := cn_solveAst c (cn_astResults c)\<rparr>)
           | _ \<Rightarrow> Inl IllFormedGraph))"

definition parser_onMatchNode ::
    "visiter_option \<Rightarrow> ref \<Rightarrow> match_node \<Rightarrow> state \<Rightarrow> (error + control \<times> state) option" where
  "parser_onMatchNode vo matchNode m s =
     (let (matchResult, sc) = run_match (mn_matchFunction m) (scanner s) True;
          s1 = s\<lparr>scanner := sc\<rparr>
      in if \<not> im_match matchResult then tryChances vo matchNode s1
         else
           (let restTokenCount = getRestTokenCount (scanner s1);
                s2 = (if m_type (mn_matching m) \<noteq> TLoose
                      then (if (case lastMatchUnderShortestRestToken s1 of
                                  None \<Rightarrow> True
                                | Some l \<Rightarrow> lm_restTokenCount l > restTokenCount)
                            then s1\<lparr>lastMatchUnderShortestRestToken :=
                                     Some \<lparr>lm_restTokenCount = restTokenCount,
                                           lm_matchNode = matchNode,
                                           lm_token = im_token matchResult\<rparr>\<rparr>
                            else s1)
                      else s1);
                s3 = (if cursorPrevToken s2 \<noteq> None \<and> im_token matchResult = cursorPrevToken s2
                      then s2\<lparr>cursorPrevNodes := cursorPrevNodes s2 @ [matchNode]\<rparr>
                      else s2)
            in Some (Inr (CVisiterNextNode matchNode
                            (case im_token matchResult of None \<Rightarrow> ANull | Some t \<Rightarrow> AToken t),
                          s3))))"

text \<open>The \<open>onMatchNode\<close> of \<^verbatim>\<open>findNextMatchNodes\<close>.\<close>

definition probe_onMatchNode ::
    "visiter_option \<Rightarrow> ref \<Rightarrow> match_node \<Rightarrow> state \<Rightarrow> (error + control \<times> state) option" where
  "probe_onMatchNode vo matchNode m s =
     (if m_type (mn_matching m) = TLoose \<and> m_value (mn_matching m) = VBoolean True
      then Some (Inr (CVisiterNextNode matchNode ANull, s))
      else tryChances vo matchNode (s\<lparr>nextMatchNodes := nextMatchNodes s @ [matchNode]\<rparr>))"

text \<open>\<^verbatim>\<open>firstMatchNode.run(store.scanner, false).match\<close>.\<close>

definition firstMatchNode_matches :: "state \<Rightarrow> ref \<Rightarrow> bool" where
  "firstMatchNode_matches s firstMatchNode =
     (case heap s firstMatchNode of
        Some (MatchNode m) \<Rightarrow> im_match (fst (run_match (mn_matchFunction m) (scanner s) False))
      | _ \<Rightarrow> False)"

text \<open>The branches of \<^verbatim>\<open>visiter\<close>, one per node class.\<close>

definition visiter_ChainNode :: "visiter_option \<Rightarrow> ref \<Rightarrow> state \<Rightarrow> (error + control \<times> state) option" where
  "visiter_ChainNode vo node s0 =
     (let s = resetHeadByVersion node s0
      in case heap s node of
           Some (ChainNode c) \<Rightarrow>
             if enableFirstSet vo \<and> truthy_name (cn_functionName c) \<and> cn_headIndex c = 0 \<and>
                (case cn_functionName c of
                   None \<Rightarrow> False
                 | Some functionName \<Rightarrow>
                     (case firstSet s functionName of
                        None \<Rightarrow> False
                      | Some firstMatchNodes \<Rightarrow>
                          \<not> list_ex (firstMatchNode_matches s) firstMatchNodes))
             then tryChances vo node (update_node node (set_headIndex (length (cn_childs c))) s)
             else
               (case child_at (cn_childs c) (cn_headIndex c) of
                  Some nextChild \<Rightarrow>
                    Some (Inr (CVisiter nextChild,
                               update_node node (set_headIndex (cn_headIndex c + 1)) s))
                | None \<Rightarrow>
                    Some (Inr (CVisiterNextNode node
                                 (if generateAst vo then cn_solveAst c (cn_astResults c) else ANull),
                               s)))
         | _ \<Rightarrow> Some (Inl IllFormedGraph))"

definition visiter_TreeNode :: "nat \<Rightarrow> ref \<Rightarrow> state \<Rightarrow> (error + control \<times> state) option" where
  "visiter_TreeNode currentTokenIndex node s0 =
     (let s = resetHeadByVersion node s0
      in case heap s node of
           Some (TreeNode t) \<Rightarrow>
             (let nextChild = child_at (tn_childs t) (tn_headIndex t);
                  s1 = (if int (tn_headIndex t) < int (length (tn_childs t)) - 1
                        then s\<lparr>restChances := restChances s @
                                 [\<lparr>ch_node = node, ch_headIndex = tn_headIndex t + 1,
                                   ch_tokenIndex = currentTokenIndex\<rparr>]\<rparr>
                        else s)
              in case nextChild of
                   Some c \<Rightarrow>
                     Some (Inr (CVisiter c, update_node node (set_headIndex (tn_headIndex t + 1)) s1))
                 | None \<Rightarrow> Some (Inr (CReturn, s1)))
         | _ \<Rightarrow> Some (Inl IllFormedGraph))"

definition visiter_FunctionNode ::
    "grammar \<Rightarrow> function_node \<Rightarrow> state \<Rightarrow> (error + control \<times> state) option" where
  "visiter_FunctionNode g f s =
     (case functionNode_run g f s of
        None \<Rightarrow> None
      | Some (Inl e) \<Rightarrow> Some (Inl e)
      | Some (Inr (replacedNode, s1)) \<Rightarrow>
          (case fn_parentNode f of
             None \<Rightarrow> Some (Inl TypeError)
           | Some p \<Rightarrow>
               (case heap s1 p of
                  None \<Rightarrow> Some (Inl IllFormedGraph)
                | Some pn \<Rightarrow>
                    if isParentNode pn \<and> fn_parentIndex f < length (childs pn)
                    then Some (Inr (CVisiter replacedNode,
                                    update_node p
                                      (set_childs ((childs pn)[fn_parentIndex f := replacedNode])) s1))
                    else Some (Inl IllFormedGraph))))"

definition visiter :: "grammar \<Rightarrow> visiter_option \<Rightarrow> ref \<Rightarrow> state \<Rightarrow> (error + control \<times> state) option" where
  "visiter g vo node s0 =
     (case (if onCallVisiter vo then parser_onCallVisiter s0 else Inr s0) of
        Inl e \<Rightarrow> Some (Inl e)
      | Inr s \<Rightarrow>
          (let currentTokenIndex = getIndex (scanner s)
           in case heap s node of
                None \<Rightarrow> Some (Inl IllFormedGraph)
              | Some (ChainNode c) \<Rightarrow> visiter_ChainNode vo node s
              | Some (MatchNode m) \<Rightarrow>
                  (case onMatchNode vo of
                     ParserOnMatchNode \<Rightarrow> parser_onMatchNode vo node m s
                   | ProbeOnMatchNode \<Rightarrow> probe_onMatchNode vo node m s)
              | Some (TreeNode t) \<Rightarrow> visiter_TreeNode currentTokenIndex node s
              | Some (FunctionNode f) \<Rightarrow> visiter_FunctionNode g f s))"

definition visiterNextNode ::
    "visiter_option \<Rightarrow> ref \<Rightarrow> ast \<Rightarrow> state \<Rightarrow> (error + control \<times> state) option" where
  "visiterNextNode vo node astValue s0 =
     (case (if onVisiterNextNode vo then parser_onVisiterNextNode s0 else Inr s0) of
        Inl e \<Rightarrow> Some (Inl e)
      | Inr s \<Rightarrow>
          (case heap s node of
             None \<Rightarrow> Some (Inl IllFormedGraph)
           | Some n \<Rightarrow>
               (case parentNode n of
                  None \<Rightarrow>
                    if isEnd (scanner s)
                    then (if onSuccess vo
                          then (case parser_onSuccess s of
                                  Inl e \<Rightarrow> Some (Inl e)
                                | Inr s1 \<Rightarrow> Some (Inr (CReturn, s1)))
                          else Some (Inr (CReturn, s)))
                    else tryChances vo node s
                | Some p \<Rightarrow>
                    (case heap s p of
                       Some (ChainNode c) \<Rightarrow>
                         (let c1 = (if generateAst vo
                                    then (if cn_isPlus c
                                          then c\<lparr>cn_astResults :=
                                                  lodash_set (cn_astResults c) (cn_plusHeadIndex c)
                                                    (parentIndex n) astValue\<rparr>
                                          else c\<lparr>cn_astResults :=
                                                  array_set (cn_astResults c) (parentIndex n) astValue\<rparr>)
                                    else c);
                              plusDone = (cn_isPlus c1 \<and> cn_headIndex c1 = length (cn_childs c1));
                              c2 = (if plusDone then c1\<lparr>cn_plusHeadIndex := cn_plusHeadIndex c1 + 1\<rparr>
                                    else c1);
                              s1 = s\<lparr>heap := (heap s)(p \<mapsto> ChainNode c2)\<rparr>;
                              s2 = (if plusDone
                                    then s1\<lparr>restChances := restChances s1 @
                                             [\<lparr>ch_node = p, ch_headIndex = 0,
                                               ch_tokenIndex = getIndex (scanner s1)\<rparr>]\<rparr>
                                    else s1)
                          in Some (Inr (CVisiter p, s2)))
                     | Some (TreeNode t) \<Rightarrow> Some (Inr (CVisiterNextNode p astValue, s))
                     | _ \<Rightarrow> Some (Inl IllFormedGraph)))))"

definition step :: "grammar \<Rightarrow> visiter_option \<Rightarrow> control \<Rightarrow> state \<Rightarrow> (error + control \<times> state) option" where
  "step g vo c s =
     (case c of
        CVisiter node \<Rightarrow> visiter g vo node s
      | CVisiterNextNode node astValue \<Rightarrow> visiterNextNode vo node astValue s
      | CReturn \<Rightarrow> Some (Inr (CReturn, s)))"

text \<open>The traversal runs until it returns or raises; \<open>None\<close> is a traversal without
  end.\<close>

partial_function (option) run ::
    "grammar \<Rightarrow> visiter_option \<Rightarrow> control \<Rightarrow> state \<Rightarrow> (error + state) option" where
  "run g vo c s =
     (if c = CReturn then Some (Inr s)
      else (case step g vo c s of
              None \<Rightarrow> None
            | Some (Inl e) \<Rightarrow> Some (Inl e)
            | Some (Inr (c1, s1)) \<Rightarrow> run g vo c1 s1))"

text \<open>\<^verbatim>\<open>newVisiter\<close>: a new store (scanner, version, no chances) and the traversal from
  the node.\<close>

definition newVisiter ::
    "grammar \<Rightarrow> ref \<Rightarrow> nat \<Rightarrow> scanner \<Rightarrow> visiter_option \<Rightarrow> state \<Rightarrow> (error + state) option" where
  "newVisiter g node v sc vo s =
     run g vo (CVisiter node) (s\<lparr>scanner := sc, store_version := v, restChances := []\<rparr>)"

section \<open>The next-match probe\<close>

text \<open>\<^verbatim>\<open>findNextMatchNodes\<close>. The probe runs on a store of its own with an empty scanner
  and collects into a list of its own; the caller's store and list are put back when it
  returns, the graph and the parser's counters keep what the probe did to them.\<close>

partial_function (option) findNextMatchNodes ::
    "grammar \<Rightarrow> ref \<Rightarrow> state \<Rightarrow> (error + ref list \<times> state) option" where
  "findNextMatchNodes g node s =
     (case heap s node of
        None \<Rightarrow> Some (Inl IllFormedGraph)
      | Some n \<Rightarrow>
          if (case parentNode n of
                None \<Rightarrow> False
              | Some p \<Rightarrow> (case heap s p of Some (TreeNode t) \<Rightarrow> True | _ \<Rightarrow> False))
          then (case parentNode n of
                  None \<Rightarrow> Some (Inl IllFormedGraph)
                | Some p \<Rightarrow> findNextMatchNodes g p s)
          else
            (let (newVersion, s1) = getNewVersion s
             in case resetParentsHeadIndexAndVersion (heap s1) node newVersion of
                  None \<Rightarrow> None
                | Some (Inl e) \<Rightarrow> Some (Inl e)
                | Some (Inr h) \<Rightarrow>
                    (case newVisiter g (case parentNode n of Some p \<Rightarrow> p | None \<Rightarrow> node)
                            newVersion \<lparr>sc_tokens = [], sc_index = 0\<rparr> probeOption
                            (s1\<lparr>heap := h, nextMatchNodes := []\<rparr>) of
                       None \<Rightarrow> None
                     | Some (Inl e) \<Rightarrow> Some (Inl e)
                     | Some (Inr s2) \<Rightarrow>
                         Some (Inr (nextMatchNodes s2,
                                    s2\<lparr>scanner := scanner s, store_version := store_version s,
                                       restChances := restChances s,
                                       nextMatchNodes := nextMatchNodes s\<rparr>)))))"

section \<open>The public parse entry\<close>

text \<open>lodash \<^verbatim>\<open>uniqBy\<close> (and \<^verbatim>\<open>uniq\<close>, by identity): the first element of every key is
  kept, in order.\<close>

fun uniqBy :: "('a \<Rightarrow> 'k) \<Rightarrow> 'a list \<Rightarrow> 'a list" where
  "uniqBy f [] = []"
| "uniqBy f (x # xs) = x # uniqBy f (filter (\<lambda>y. f y \<noteq> f x) xs)"

definition uniq :: "'a list \<Rightarrow> 'a list" where
  "uniq xs = uniqBy (\<lambda>x. x) xs"

text \<open>\<^verbatim>\<open>each.matching\<close> of a collected node; the lists hold match nodes only.\<close>

definition matching_of :: "state \<Rightarrow> ref \<Rightarrow> matching option" where
  "matching_of s r = (case heap s r of Some (MatchNode m) \<Rightarrow> Some (mn_matching m) | _ \<Rightarrow> None)"

definition node_key :: "state \<Rightarrow> ref \<Rightarrow> string option" where
  "node_key s r = map_option matching_key (matching_of s r)"

text \<open>The \<^verbatim>\<open>reduce\<close> over the cursor-prev nodes and the \<^verbatim>\<open>filter\<close> by the token after the
  cursor; both run the probe once per element, in order.\<close>

fun nextMatchNodes_reduce ::
    "grammar \<Rightarrow> ref list \<Rightarrow> ref list \<Rightarrow> state \<Rightarrow> (error + ref list \<times> state) option" where
  "nextMatchNodes_reduce g [] all s = Some (Inr (all, s))"
| "nextMatchNodes_reduce g (cursorPrevMatchNode # rest) all s =
     (case findNextMatchNodes g cursorPrevMatchNode s of
        None \<Rightarrow> None
      | Some (Inl e) \<Rightarrow> Some (Inl e)
      | Some (Inr (found, s1)) \<Rightarrow> nextMatchNodes_reduce g rest (all @ found) s1)"

fun nextMatchNodes_filter ::
    "grammar \<Rightarrow> string \<Rightarrow> ref list \<Rightarrow> state \<Rightarrow> (error + ref list \<times> state) option" where
  "nextMatchNodes_filter g tokenValue [] s = Some (Inr ([], s))"
| "nextMatchNodes_filter g tokenValue (nextMatchNode # rest) s =
     (case findNextMatchNodes g nextMatchNode s of
        None \<Rightarrow> None
      | Some (Inl e) \<Rightarrow> Some (Inl e)
      | Some (Inr (found, s1)) \<Rightarrow>
          (case nextMatchNodes_filter g tokenValue rest s1 of
             None \<Rightarrow> None
           | Some (Inl e) \<Rightarrow> Some (Inl e)
           | Some (Inr (kept, s2)) \<Rightarrow>
               Some (Inr (if list_ex (\<lambda>nextNextMatchNode.
                                 map_option m_value (matching_of s1 nextNextMatchNode)
                                   = Some (VString tokenValue)) found
                          then nextMatchNode # kept else kept, s2))))"

datatype reason = Wrong | Incomplete

record parse_error =
  suggestions :: "matching list"
  error_token :: "tokref option"
  error_reason :: reason

record parse_result =
  r_success :: bool
  r_ast :: ast
  r_callVisiterCount :: nat
  r_nextMatchings :: "matching list"
  r_error :: "parse_error option"
  r_tokens :: "token list"

text \<open>The parser of a root rule: taken from \<^verbatim>\<open>parserMap\<close> when a parse has built it
  (the state that parse left), built from the root rule otherwise.\<close>

definition initial_state :: state where
  "initial_state = \<lparr>heap = Map.empty, nextRef = 0, parser_version = 0, rootChainNode = None,
     firstSet = Map.empty, firstOrFunctionSet = Map.empty, relatedSet = Map.empty,
     scanner = \<lparr>sc_tokens = [], sc_index = 0\<rparr>, store_version = 0, restChances = [],
     success = False, result_ast = ANull, callVisiterCount = 0, callParentCount = 0,
     lastMatchUnderShortestRestToken = None, cursorPrevToken = None, cursorPrevNodes = [],
     nextMatchNodes = []\<rparr>"

definition getParser :: "grammar \<Rightarrow> string \<Rightarrow> state option \<Rightarrow> (error + state) option" where
  "getParser g root parserMap =
     (case parserMap of
        Some s \<Rightarrow> Some (Inr s)
      | None \<Rightarrow>
          (case chainNodeFactory (fst (g root)) (snd (g root)) None None 0 initial_state of
             None \<Rightarrow> None
           | Some (Inl e) \<Rightarrow> Some (Inl e)
           | Some (Inr (r, s)) \<Rightarrow> Some (Inr (s\<lparr>rootChainNode := Some r\<rparr>))))"

text \<open>The error of a failed parse, from the best-progress match and the suggestions.\<close>

definition make_error :: "scanner \<Rightarrow> last_match option \<Rightarrow> matching list \<Rightarrow> parse_error" where
  "make_error sc lastMatch sugg =
     (case (case lastMatch of
              None \<Rightarrow> None
            | Some l \<Rightarrow> (case lm_token l of None \<Rightarrow> None | Some t \<Rightarrow> getNextFromToken sc t)) of
        Some errorToken \<Rightarrow>
          \<lparr>suggestions = sugg, error_token = Some errorToken, error_reason = Wrong\<rparr>
      | None \<Rightarrow>
          \<lparr>suggestions = sugg,
           error_token = (case lastMatch of None \<Rightarrow> None | Some l \<Rightarrow> lm_token l),
           error_reason = Incomplete\<rparr>)"

text \<open>The traversal of \<^verbatim>\<open>createParser\<close>: the state of the parse before the visiter runs,
  and the visiter from the root.\<close>

definition parse_start :: "token list \<Rightarrow> nat \<Rightarrow> ref \<Rightarrow> state \<Rightarrow> nat \<times> state" where
  "parse_start tokens cursorIndex root p =
     (let sc = \<lparr>sc_tokens = tokens, sc_index = 0\<rparr>;
          prev = getPrevTokenFromCharacterIndex sc cursorIndex;
          s0 = p\<lparr>scanner := sc, cursorPrevToken := prev,
                 cursorPrevNodes := (if prev = None then [root] else []),
                 success := False, result_ast := ANull, callVisiterCount := 0,
                 callParentCount := 0, lastMatchUnderShortestRestToken := None\<rparr>
      in getNewVersion s0)"

definition parse_visit :: "grammar \<Rightarrow> token list \<Rightarrow> nat \<Rightarrow> ref \<Rightarrow> state \<Rightarrow> (error + state) option" where
  "parse_visit g tokens cursorIndex root p =
     (let (newVersion, s1) = parse_start tokens cursorIndex root p
      in newVisiter g root newVersion (scanner s1) parserOption s1)"

text \<open>What follows the traversal: the next matchings at the cursor, and the error of a
  failed parse.\<close>

definition parse_nextMatchNodes ::
    "grammar \<Rightarrow> token list \<Rightarrow> nat \<Rightarrow> state \<Rightarrow> (error + ref list \<times> state) option" where
  "parse_nextMatchNodes g tokens cursorIndex s2 =
     (let s3 = s2\<lparr>cursorPrevNodes := uniq (cursorPrevNodes s2)\<rparr>
      in case nextMatchNodes_reduce g (cursorPrevNodes s3) [] s3 of
           None \<Rightarrow> None
         | Some (Inl e) \<Rightarrow> Some (Inl e)
         | Some (Inr (found, s4)) \<Rightarrow>
             (case getNextTokenFromCharacterIndex \<lparr>sc_tokens = tokens, sc_index = 0\<rparr> cursorIndex of
                Some cursorNextToken \<Rightarrow>
                  nextMatchNodes_filter g (tok_value (tokens ! cursorNextToken))
                    (uniqBy (node_key s4) found) s4
              | None \<Rightarrow> Some (Inr (uniqBy (node_key s4) found, s4))))"

definition parse_error_of ::
    "grammar \<Rightarrow> token list \<Rightarrow> ref \<Rightarrow> state \<Rightarrow> (error + parse_error option \<times> state) option" where
  "parse_error_of g tokens root s5 =
     (if \<not> success s5
      then (case findNextMatchNodes g
                   (case lastMatchUnderShortestRestToken s5 of
                      Some l \<Rightarrow> lm_matchNode l
                    | None \<Rightarrow> root) s5 of
              None \<Rightarrow> None
            | Some (Inl e) \<Rightarrow> Some (Inl e)
            | Some (Inr (found, s6)) \<Rightarrow>
                Some (Inr (Some (make_error \<lparr>sc_tokens = tokens, sc_index = 0\<rparr>
                                   (lastMatchUnderShortestRestToken s6)
                                   (uniqBy matching_key (List.map_filter (matching_of s6) found))),
                           s6)))
      else Some (Inr (None, s5)))"

definition parse_finish ::
    "grammar \<Rightarrow> token list \<Rightarrow> nat \<Rightarrow> ref \<Rightarrow> state \<Rightarrow> (error + parse_result \<times> state) option" where
  "parse_finish g tokens cursorIndex root s2 =
     (case parse_nextMatchNodes g tokens cursorIndex s2 of
        None \<Rightarrow> None
      | Some (Inl e) \<Rightarrow> Some (Inl e)
      | Some (Inr (nextNodes, s5)) \<Rightarrow>
          (case parse_error_of g tokens root s5 of
             None \<Rightarrow> None
           | Some (Inl e) \<Rightarrow> Some (Inl e)
           | Some (Inr (err, s7)) \<Rightarrow>
               Some (Inr (\<lparr>r_success = success s7, r_ast = result_ast s7,
                            r_callVisiterCount = callVisiterCount s7,
                            r_nextMatchings = List.map_filter (matching_of s7) (rev nextNodes),
                            r_error = err, r_tokens = tokens\<rparr>, s7))))"

text \<open>\<^verbatim>\<open>createParser(root, lexer)(text, cursorIndex)\<close>, on the tokens the lexer returns
  for the text. The result comes with the state that \<^verbatim>\<open>parserMap\<close> keeps for the root.\<close>

definition createParser ::
    "grammar \<Rightarrow> string \<Rightarrow> state option \<Rightarrow> token list \<Rightarrow> nat \<Rightarrow> (error + parse_result \<times> state) option" where
  "createParser g root parserMap tokens cursorIndex =
     (case getParser g root parserMap of
        None \<Rightarrow> None
      | Some (Inl e) \<Rightarrow> Some (Inl e)
      | Some (Inr p) \<Rightarrow>
          (case rootChainNode p of
             None \<Rightarrow> Some (Inl IllFormedGraph)
           | Some rootNode \<Rightarrow>
               (case parse_visit g tokens cursorIndex rootNode p of
                  None \<Rightarrow> None
                | Some (Inl e) \<Rightarrow> Some (Inl e)
                | Some (Inr s2) \<Rightarrow> parse_finish g tokens cursorIndex rootNode s2)))"

section \<open>Notions for the properties\<close>

text \<open>The spine of a node: the node and the nodes reached from it by parent links. A node
  climbs in \<open>k\<close> links when the root is reached after \<open>k\<close> parent links.\<close>

inductive on_spine :: "(ref \<Rightarrow> node option) \<Rightarrow> ref \<Rightarrow> ref \<Rightarrow> bool" for h node where
  self: "on_spine h node node"
| up: "on_spine h node c \<Longrightarrow> h c = Some n \<Longrightarrow> parentNode n = Some p \<Longrightarrow> on_spine h node p"

inductive climbs :: "(ref \<Rightarrow> node option) \<Rightarrow> ref \<Rightarrow> nat \<Rightarrow> bool" for h where
  root: "h node = Some n \<Longrightarrow> parentNode n = None \<Longrightarrow> climbs h node 0"
| link: "h node = Some n \<Longrightarrow> parentNode n = Some p \<Longrightarrow> climbs h p k \<Longrightarrow> climbs h node (Suc k)"

definition stamp :: "nat \<Rightarrow> nat \<Rightarrow> node \<Rightarrow> node" where
  "stamp v i n = set_version v (set_headIndex i n)"

definition same_links :: "(ref \<Rightarrow> node option) \<Rightarrow> (ref \<Rightarrow> node option) \<Rightarrow> bool" where
  "same_links h h' = (\<forall>r. (h r = None \<longrightarrow> h' r = None) \<and>
      (\<forall>n. h r = Some n \<longrightarrow> (\<exists>n'. h' r = Some n' \<and> parentNode n' = parentNode n)))"

definition proper_ancestor :: "(ref \<Rightarrow> node option) \<Rightarrow> ref \<Rightarrow> ref \<Rightarrow> bool" where
  "proper_ancestor h node q = (\<exists>c n. on_spine h node c \<and> h c = Some n \<and> parentNode n = Some q)"

text \<open>The ancestors of \<open>node\<close> resume past the spine from store \<open>h\<close> to store \<open>h'\<close>
  under version \<open>v\<close>: every parent \<open>p\<close> of a spine node \<open>c\<close> has in \<open>h'\<close> the head index
  \<open>parentIndex c + 1\<close>, at most the number of its children, and the version \<open>v\<close>, keeps
  its \<open>astResults\<close> and children, and is left as it is by the lazy reset under \<open>v\<close>.\<close>

definition ancestors_resume :: "(ref \<Rightarrow> node option) \<Rightarrow> (ref \<Rightarrow> node option) \<Rightarrow> ref \<Rightarrow> nat \<Rightarrow> bool" where
  "ancestors_resume h h' node v =
     (\<forall>c n p pn. on_spine h node c \<longrightarrow> h c = Some n \<longrightarrow> parentNode n = Some p \<longrightarrow> h p = Some pn \<longrightarrow>
        (\<exists>pn'. h' p = Some pn' \<and>
               headIndex pn' = min (parentIndex n + 1) (length (childs pn)) \<and>
               version pn' = Some v \<and> astResults pn' = astResults pn \<and> childs pn' = childs pn \<and>
               resetHeadByVersion_node v pn' = pn'))"

text \<open>Addresses are handed out in order: \<open>alloc_ok\<close> says that every node of the store
  lies below the next free address. \<open>keeps_match\<close> relates two stores when every match
  node of the first is the same match node in the second. The relations \<open>graph_step\<close>,
  \<open>quiet\<close>, \<open>based\<close>, \<open>closure_same\<close> and \<open>probed\<close> say what a function leaves alone;
  \<open>tracker_le\<close> says that the rest-token count of the best-progress match did not grow.
  \<open>accepts\<close> is the configuration in which \<^verbatim>\<open>visiterNextNode\<close> runs on a node without
  parent with the scanner at its end, \<open>reaches\<close> the configurations a traversal passes
  through, and \<open>parse_init\<close> the state in which the traversal of a parse starts.\<close>

definition alloc_ok :: "state \<Rightarrow> bool" where
  "alloc_ok s = (\<forall>r. heap s r \<noteq> None \<longrightarrow> r < nextRef s)"

definition keeps_match :: "(ref \<Rightarrow> node option) \<Rightarrow> (ref \<Rightarrow> node option) \<Rightarrow> bool" where
  "keeps_match h h' = (\<forall>r m. h r = Some (MatchNode m) \<longrightarrow> h' r = Some (MatchNode m))"

definition rest_of :: "state \<Rightarrow> nat \<times> ref option \<times> scanner \<times> nat \<times> chance list \<times> bool \<times> ast \<times> nat \<times> nat \<times>
    last_match option \<times> tokref option \<times> ref list \<times> ref list" where
  "rest_of s = (parser_version s, rootChainNode s, scanner s, store_version s, restChances s,
     success s, result_ast s, callVisiterCount s, callParentCount s,
     lastMatchUnderShortestRestToken s, cursorPrevToken s, cursorPrevNodes s, nextMatchNodes s)"

definition graph_step :: "state \<Rightarrow> state \<Rightarrow> bool" where
  "graph_step s s' = (rest_of s' = rest_of s \<and>
     (alloc_ok s \<longrightarrow> alloc_ok s' \<and> keeps_match (heap s) (heap s')))"

definition fixes_match :: "(node \<Rightarrow> node) \<Rightarrow> bool" where
  "fixes_match f = (\<forall>m. f (MatchNode m) = MatchNode m)"

definition budget_error :: "error \<Rightarrow> bool" where
  "budget_error e = (e = CallVisiterExceeded \<or> e = CallParentExceeded)"

definition quiet :: "visiter_option \<Rightarrow> state \<Rightarrow> state \<Rightarrow> bool" where
  "quiet vo s s' \<longleftrightarrow>
     (alloc_ok s \<longrightarrow> alloc_ok s' \<and> keeps_match (heap s) (heap s')) \<and>
     rootChainNode s' = rootChainNode s \<and> sc_tokens (scanner s') = sc_tokens (scanner s) \<and>
     (success s' \<longrightarrow> success s) \<and> (\<not> onFail vo \<longrightarrow> success s' = success s) \<and>
     result_ast s' = result_ast s \<and> callVisiterCount s' = callVisiterCount s \<and>
     callParentCount s' = callParentCount s \<and>
     lastMatchUnderShortestRestToken s' = lastMatchUnderShortestRestToken s \<and>
     cursorPrevToken s' = cursorPrevToken s \<and> cursorPrevNodes s' = cursorPrevNodes s \<and>
     nextMatchNodes s' = nextMatchNodes s"

definition loose_true :: "matching \<Rightarrow> bool" where
  "loose_true m = (m_type m = TLoose \<and> m_value m = VBoolean True)"

definition nm_inv :: "state \<Rightarrow> bool" where
  "nm_inv s = (\<forall>r. r \<in> set (nextMatchNodes s) \<longrightarrow>
     (\<exists>m. heap s r = Some (MatchNode m) \<and> \<not> loose_true (mn_matching m)))"

definition tracker_le :: "state \<Rightarrow> state \<Rightarrow> bool" where
  "tracker_le s s' =
     (case lastMatchUnderShortestRestToken s of
        None \<Rightarrow> True
      | Some l \<Rightarrow>
          (case lastMatchUnderShortestRestToken s' of
             None \<Rightarrow> False
           | Some l' \<Rightarrow> lm_restTokenCount l' \<le> lm_restTokenCount l))"

definition based :: "state \<Rightarrow> state \<Rightarrow> bool" where
  "based s s' \<longleftrightarrow>
     (alloc_ok s \<longrightarrow> alloc_ok s' \<and> keeps_match (heap s) (heap s')) \<and>
     rootChainNode s' = rootChainNode s \<and> sc_tokens (scanner s') = sc_tokens (scanner s) \<and>
     cursorPrevToken s' = cursorPrevToken s \<and>
     (alloc_ok s \<longrightarrow> nm_inv s \<longrightarrow> nm_inv s')"

definition closure_same :: "state \<Rightarrow> state \<Rightarrow> bool" where
  "closure_same s s' \<longleftrightarrow>
     success s' = success s \<and> result_ast s' = result_ast s \<and>
     callVisiterCount s' = callVisiterCount s \<and> callParentCount s' = callParentCount s \<and>
     lastMatchUnderShortestRestToken s' = lastMatchUnderShortestRestToken s \<and>
     cursorPrevNodes s' = cursorPrevNodes s"

definition accepts :: "control \<Rightarrow> state \<Rightarrow> bool" where
  "accepts c s = (case c of
      CVisiterNextNode node a \<Rightarrow>
        (case heap s node of
           Some n \<Rightarrow> parentNode n = None \<and> isEnd (scanner s)
         | None \<Rightarrow> False)
    | _ \<Rightarrow> False)"

inductive reaches :: "grammar \<Rightarrow> visiter_option \<Rightarrow> control \<times> state \<Rightarrow> control \<times> state \<Rightarrow> bool"
  for g vo cs where
  here: "reaches g vo cs cs"
| after: "reaches g vo cs (c1, s1) \<Longrightarrow> c1 \<noteq> CReturn \<Longrightarrow> step g vo c1 s1 = Some (Inr (c2, s2)) \<Longrightarrow>
          reaches g vo cs (c2, s2)"

definition probe_like :: "visiter_option \<Rightarrow> bool" where
  "probe_like vo \<longleftrightarrow> \<not> onCallVisiter vo \<and> \<not> onVisiterNextNode vo \<and> \<not> onFail vo \<and>
     \<not> onSuccess vo \<and> onMatchNode vo = ProbeOnMatchNode"

definition found_ok :: "state \<Rightarrow> ref list \<Rightarrow> bool" where
  "found_ok s xs = (\<forall>r. r \<in> set xs \<longrightarrow>
     (\<exists>m. heap s r = Some (MatchNode m) \<and> \<not> loose_true (mn_matching m)))"

definition probed :: "state \<Rightarrow> state \<Rightarrow> bool" where
  "probed s s' \<longleftrightarrow> based s s' \<and> closure_same s s' \<and> scanner s' = scanner s"

definition parse_init :: "token list \<Rightarrow> nat \<Rightarrow> ref \<Rightarrow> state \<Rightarrow> state" where
  "parse_init tokens cursorIndex root p =
     (let (newVersion, s1) = parse_start tokens cursorIndex root p
      in s1\<lparr>scanner := scanner s1, store_version := newVersion, restChances := []\<rparr>)"

text \<open>The non-loose terminal matches of a traversal. \<open>matched_at\<close> is the match the visit of
  a configuration makes, if it is the visit of a match node that is not loose and whose
  matcher accepts: the tokens left after it, the node and the matched token.
  \<open>matches_upto\<close> collects these matches, in order, along the steps of a traversal.
  \<open>best_progress_in\<close> says that a match is the first one of the list among those that leave
  the fewest tokens.\<close>

definition matched_at :: "control \<Rightarrow> state \<Rightarrow> last_match option" where
  "matched_at c s =
     (case c of
        CVisiter node \<Rightarrow>
          (case heap s node of
             Some (MatchNode m) \<Rightarrow>
               (let (matchResult, sc) = run_match (mn_matchFunction m) (scanner s) True
                in if im_match matchResult \<and> m_type (mn_matching m) \<noteq> TLoose
                   then Some \<lparr>lm_restTokenCount = getRestTokenCount sc, lm_matchNode = node,
                               lm_token = im_token matchResult\<rparr>
                   else None)
           | _ \<Rightarrow> None)
      | _ \<Rightarrow> None)"

inductive matches_upto ::
    "grammar \<Rightarrow> visiter_option \<Rightarrow> control \<times> state \<Rightarrow> last_match list \<Rightarrow> control \<times> state \<Rightarrow> bool"
  for g vo cs where
  none: "matches_upto g vo cs [] cs"
| more: "matches_upto g vo cs ms (c1, s1) \<Longrightarrow> c1 \<noteq> CReturn \<Longrightarrow>
         step g vo c1 s1 = Some (Inr (c2, s2)) \<Longrightarrow>
         matches_upto g vo cs (ms @ (case matched_at c1 s1 of None \<Rightarrow> [] | Some l \<Rightarrow> [l])) (c2, s2)"

definition best_progress_in :: "last_match list \<Rightarrow> last_match \<Rightarrow> bool" where
  "best_progress_in ms l \<longleftrightarrow>
     (\<exists>before after. ms = before @ l # after \<and>
        (\<forall>l' \<in> set before. lm_restTokenCount l < lm_restTokenCount l') \<and>
        (\<forall>l' \<in> set after. lm_restTokenCount l \<le> lm_restTokenCount l'))"

section \<open>Example grammars\<close>

text \<open>The grammar \<^verbatim>\<open>expr = term ('+' | '-') term; term = 'a' | 'b'\<close>, with the default
  reducer, and the tokens of \<^verbatim>\<open>a + b\<close>.\<close>

definition expr_grammar :: grammar where
  "expr_grammar name =
     (if name = ''root''
      then ([EFunction ''term'', EArray [EString ''+'', EString ''-''], EFunction ''term''], AArray)
      else if name = ''term'' then ([EArray [EString ''a'', EString ''b'']], AArray)
      else ([], AArray))"

definition a_plus_b :: "token list" where
  "a_plus_b = [\<lparr>tok_value = ''a'', tok_start = 0, tok_end = 1\<rparr>,
               \<lparr>tok_value = ''+'', tok_start = 2, tok_end = 3\<rparr>,
               \<lparr>tok_value = ''b'', tok_start = 4, tok_end = 5\<rparr>]"

text \<open>The parser of the grammar before its first parse: the root chain node at address 0
  with its three children.\<close>

definition expr_parser :: state where
  "expr_parser =
     (case getParser expr_grammar ''root'' None of Some (Inr s) \<Rightarrow> s | _ \<Rightarrow> initial_state)"

text \<open>A choice between the loose terminal \<open>false\<close> and a literal; a rule \<open>A\<close> that
  starts with a rule \<open>B\<close>; the tokens of \<^verbatim>\<open>b x\<close>; a literal followed by an optional
  literal.\<close>

definition loose_grammar :: grammar where
  "loose_grammar name = ([EArray [EBoolean False, EString ''a'']], AArray)"

definition first_grammar :: grammar where
  "first_grammar name =
     (if name = ''root'' then ([EFunction ''A''], AArray)
      else if name = ''A'' then ([EFunction ''B'', EString ''x''], AArray)
      else ([EString ''b''], AArray))"

definition b_x :: "token list" where
  "b_x = [\<lparr>tok_value = ''b'', tok_start = 0, tok_end = 1\<rparr>,
          \<lparr>tok_value = ''x'', tok_start = 2, tok_end = 3\<rparr>]"

text \<open>The tokens of \<^verbatim>\<open>a + x\<close>.\<close>

definition a_plus_x :: "token list" where
  "a_plus_x = [\<lparr>tok_value = ''a'', tok_start = 0, tok_end = 1\<rparr>,
               \<lparr>tok_value = ''+'', tok_start = 2, tok_end = 3\<rparr>,
               \<lparr>tok_value = ''x'', tok_start = 4, tok_end = 5\<rparr>]"

definition optional_grammar :: grammar where
  "optional_grammar name = ([EString ''a'', EArray [EString ''b'', EBoolean True]], AArray)"

definition loose_parser :: state where
  "loose_parser =
     (case getParser loose_grammar ''root'' None of Some (Inr s) \<Rightarrow> s | _ \<Rightarrow> initial_state)"

text \<open>The two counters after a call that returned.\<close>

definition counters_after :: "(error + control \<times> state) option \<Rightarrow> (error + nat \<times> nat) option" where
  "counters_after r =
     map_option (map_sum id (\<lambda>(c, s). (callVisiterCount s, callParentCount s))) r"

section \<open>Properties\<close>

text \<open>The definitions a concrete run unfolds.\<close>

lemmas evals = createParser_def getParser_def chainNodeFactory_def alloc_def update_node_def
  truthy_name_def initial_state_def parse_visit_def parse_start_def getNewVersion_def
  newVisiter_def run.simps step_def visiter_def visiterNextNode_def parserOption_def probeOption_def
  parser_onCallVisiter_def parser_onVisiterNextNode_def parser_onSuccess_def parser_onMatchNode_def
  probe_onMatchNode_def visiter_ChainNode_def visiter_TreeNode_def visiter_FunctionNode_def
  tryChances_def resetHeadByVersion_def resetHeadByVersion_node_def
  resetParentsHeadIndexAndVersion.simps findNextMatchNodes.simps
  parse_finish_def parse_nextMatchNodes_def parse_error_of_def make_error_def
  uniq_def node_key_def matching_of_def matching_key_def type_string_def value_string_def
  getPrevTokenFromCharacterIndex_def getNextTokenFromCharacterIndex_def getNextFromToken_def
  getIndex_def setIndex_def isEnd_def getRestTokenCount_def run_match_def matchToken_def
  sc_read_def sc_next_def child_at_def MAX_VISITER_CALL_def array_set_def lodash_set_def
  functionNode_run_def generateFirstSet_def solveFirstSet_def relatedSet_add_def
  firstMatchNode_matches_def List.map_filter_def Let_def

lemma element_name_simps [simp]:
  "element_name (EArray es) = Inr None"
  "element_name (EString w) = Inr None"
  "element_name (EBoolean b) = Inr None"
  "element_name (EMatch d p) = Inr (Some [])"
  "element_name (EChainNodeFactory es f isPlus) = Inr (Some ''chainNodeFactory'')"
  "element_name (EFunction n) = Inr (Some n)"
  "element_name ENullish = Inl TypeError"
  "element_name EOther = Inr None"
  by (simp_all add: element_name_def)

lemma filter_raising_names:
  "filter_raising (\<lambda>element. case element_name element of
                                 Inl e \<Rightarrow> Inl e
                               | Inr name \<Rightarrow> Inr (q name)) es =
     (if ENullish \<in> set es then Inl TypeError
      else Inr (filter (\<lambda>element. case element_name element of Inl e \<Rightarrow> False | Inr name \<Rightarrow> q name) es))"
proof (induction es)
  case Nil
  show ?case by simp
next
  case (Cons x xs)
  show ?case by (cases x) (simp_all add: Cons.IH)
qed

lemma solveDirectLeftRecursion_cases [simp]:
  "solveDirectLeftRecursion es name = (if ENullish \<in> set es then Inl TypeError else Inr es)"
  by (simp add: solveDirectLeftRecursion_def filter_raising_names)

text \<open>
  C7: for every list of rule-body elements without \<^verbatim>\<open>null\<close> or \<^verbatim>\<open>undefined\<close> and every rule
  name, the direct-left-recursion rewrite returns its input element list unchanged: the
  left-recursive and the normal elements are computed and then dropped, so no alternative
  is rewritten. On a list that holds \<^verbatim>\<open>null\<close> or \<^verbatim>\<open>undefined\<close> the rewrite raises a
  \<^verbatim>\<open>TypeError\<close>, from reading the name of that element, and returns nothing.
\<close>
theorem solveDirectLeftRecursion_identity:
  "(ENullish \<notin> set elements \<longrightarrow>
      solveDirectLeftRecursion elements parentFunctionName = Inr elements) \<and>
   (ENullish \<in> set elements \<longrightarrow>
      solveDirectLeftRecursion elements parentFunctionName = Inl TypeError)"
proof (intro conjI impI)
  assume "ENullish \<notin> set elements"
  then show "solveDirectLeftRecursion elements parentFunctionName = Inr elements"
    unfolding solveDirectLeftRecursion_def by (simp add: filter_raising_names)
next
  assume "ENullish \<in> set elements"
  then show "solveDirectLeftRecursion elements parentFunctionName = Inl TypeError"
    unfolding solveDirectLeftRecursion_def by (simp add: filter_raising_names)
qed

theorem solveDirectLeftRecursion_identity_witness:
  "solveDirectLeftRecursion [EFunction ''a'', EString ''+'', EFunction ''b''] (Some ''a'') =
     Inr [EFunction ''a'', EString ''+'', EFunction ''b'']"
  using solveDirectLeftRecursion_identity
          [of "[EFunction ''a'', EString ''+'', EFunction ''b'']" "Some ''a''"]
  by simp

text \<open>The rewrite on the body \<^verbatim>\<open>chain(null, 'a')\<close> of a rule \<open>x\<close> does not return the
  body: it raises.\<close>

theorem solveDirectLeftRecursion_raises_on_null:
  "solveDirectLeftRecursion [ENullish, EString ''a''] (Some ''x'') = Inl TypeError"
  by (simp add: solveDirectLeftRecursion_def)

subsection \<open>Lazy reset by version\<close>

lemma update_node_id: "heap s r = Some n \<Longrightarrow> f n = n \<Longrightarrow> update_node r f s = s"
  by (simp add: update_node_def fun_upd_idem)

lemma resetHeadByVersion_node_idem:
  "resetHeadByVersion_node v (resetHeadByVersion_node v n) = resetHeadByVersion_node v n"
  by (cases n) (simp_all add: resetHeadByVersion_node_def)

lemma resetHeadByVersion_idem:
  "resetHeadByVersion node (resetHeadByVersion node s) = resetHeadByVersion node s"
  by (simp add: resetHeadByVersion_def update_node_def resetHeadByVersion_node_idem split: option.splits)

lemma visiter_ChainNode_reset:
  "visiter_ChainNode vo node (resetHeadByVersion node s) = visiter_ChainNode vo node s"
  by (simp add: visiter_ChainNode_def resetHeadByVersion_idem)

lemma visiter_TreeNode_reset:
  "visiter_TreeNode i node (resetHeadByVersion node s) = visiter_TreeNode i node s"
  by (simp add: visiter_TreeNode_def resetHeadByVersion_idem)

lemma resetHeadByVersion_callVisiterCount:
  "resetHeadByVersion node (s\<lparr>callVisiterCount := k\<rparr>) = (resetHeadByVersion node s)\<lparr>callVisiterCount := k\<rparr>"
  by (simp add: resetHeadByVersion_def update_node_def split: option.splits)

lemma isParentNode_reset: "isParentNode n \<Longrightarrow> isParentNode (resetHeadByVersion_node v n)"
  by (cases n) (simp_all add: resetHeadByVersion_node_def)

lemma parser_onCallVisiter_reset:
  "parser_onCallVisiter (resetHeadByVersion node s) =
     (case parser_onCallVisiter s of Inl e \<Rightarrow> Inl e | Inr s1 \<Rightarrow> Inr (resetHeadByVersion node s1))"
  by (simp add: parser_onCallVisiter_def Let_def resetHeadByVersion_def update_node_def
           split: option.splits)

lemma heap_resetHeadByVersion:
  "heap (resetHeadByVersion node s) r =
     (if r = node then map_option (resetHeadByVersion_node (store_version s)) (heap s node)
      else heap s r)"
  by (simp add: resetHeadByVersion_def update_node_def split: option.splits)

lemma scanner_resetHeadByVersion [simp]: "scanner (resetHeadByVersion node s) = scanner s"
  by (simp add: resetHeadByVersion_def update_node_def split: option.splits)

lemma heap_parser_onCallVisiter:
  "parser_onCallVisiter s = Inr s1 \<Longrightarrow> heap s1 = heap s \<and> store_version s1 = store_version s"
  by (auto simp: parser_onCallVisiter_def Let_def split: if_splits)

lemma resetHeadByVersion_node_kind:
  "(case resetHeadByVersion_node v n of ChainNode c \<Rightarrow> a | TreeNode t \<Rightarrow> b | _ \<Rightarrow> d) =
   (case n of ChainNode c \<Rightarrow> a | TreeNode t \<Rightarrow> b | _ \<Rightarrow> d)"
  by (cases n) (simp_all add: resetHeadByVersion_node_def)

lemma tryChances_onCallVisiter [simp]:
  "tryChances (vo\<lparr>onCallVisiter := b\<rparr>) node s = tryChances vo node s"
  by (simp add: tryChances_def Let_def split: prod.splits)

lemma tryChances_onVisiterNextNode [simp]:
  "tryChances (vo\<lparr>onVisiterNextNode := b\<rparr>) node s = tryChances vo node s"
  by (simp add: tryChances_def Let_def split: prod.splits)

lemma visiter_ChainNode_onCallVisiter [simp]:
  "visiter_ChainNode (vo\<lparr>onCallVisiter := b\<rparr>) node s = visiter_ChainNode vo node s"
  by (simp add: visiter_ChainNode_def Let_def split: option.splits node.splits)

lemma parser_onMatchNode_onCallVisiter [simp]:
  "parser_onMatchNode (vo\<lparr>onCallVisiter := b\<rparr>) node m s = parser_onMatchNode vo node m s"
  by (simp add: parser_onMatchNode_def Let_def split: prod.splits)

lemma probe_onMatchNode_onCallVisiter [simp]:
  "probe_onMatchNode (vo\<lparr>onCallVisiter := b\<rparr>) node m s = probe_onMatchNode vo node m s"
  by (simp add: probe_onMatchNode_def)

lemma visiter_unhooked:
  "visiter g vo node s =
     (case (if onCallVisiter vo then parser_onCallVisiter s else Inr s) of
        Inl e \<Rightarrow> Some (Inl e)
      | Inr s1 \<Rightarrow> visiter g (vo\<lparr>onCallVisiter := False\<rparr>) node s1)"
  by (simp add: visiter_def Let_def split: sum.splits option.splits node.splits match_handler.splits)

lemma visiter_body_reset:
  assumes "heap s node = Some n" and "isParentNode n"
  shows "visiter g (vo\<lparr>onCallVisiter := False\<rparr>) node (resetHeadByVersion node s) =
         visiter g (vo\<lparr>onCallVisiter := False\<rparr>) node s"
  using assms
  by (cases n)
     (simp_all add: visiter_def heap_resetHeadByVersion resetHeadByVersion_node_def
        visiter_ChainNode_reset visiter_TreeNode_reset Let_def)

lemma visiter_after_reset:
  assumes "heap s node = Some n" and "isParentNode n"
  shows "visiter g vo node (resetHeadByVersion node s) = visiter g vo node s"
proof (cases "onCallVisiter vo")
  case False
  then have "vo\<lparr>onCallVisiter := False\<rparr> = vo" by simp
  then show ?thesis using visiter_body_reset[OF assms, of g vo] by simp
next
  case True
  have L: "visiter g vo node (resetHeadByVersion node s) =
      (case parser_onCallVisiter s of
         Inl e \<Rightarrow> Some (Inl e)
       | Inr s1 \<Rightarrow> visiter g (vo\<lparr>onCallVisiter := False\<rparr>) node (resetHeadByVersion node s1))"
    using True
    by (subst visiter_unhooked) (simp add: parser_onCallVisiter_reset split: sum.splits)
  have R: "visiter g vo node s =
      (case parser_onCallVisiter s of
         Inl e \<Rightarrow> Some (Inl e)
       | Inr s1 \<Rightarrow> visiter g (vo\<lparr>onCallVisiter := False\<rparr>) node s1)"
    using True by (subst visiter_unhooked) simp
  show ?thesis
  proof (cases "parser_onCallVisiter s")
    case (Inl e)
    then show ?thesis using L R by simp
  next
    case (Inr s1)
    then have h: "heap s1 node = Some n" using heap_parser_onCallVisiter assms by simp
    show ?thesis using L R Inr visiter_body_reset[OF h assms(2), of g vo] by simp
  qed
qed

text \<open>
  C4: when the visiter enters a chain or tree node whose version differs from the store's
  version, the node's head index is reset to 0 and its version stamped (a chain node's
  \<open>astResults\<close> is cleared; a tree node has none), its children kept; when the versions are
  equal nothing changes. The visit of the node is the visit of the reset node: the state
  of the node before the reset is not used.
\<close>
theorem resetHeadByVersion_on_entry:
  assumes "heap s node = Some n" and "isParentNode n"
  shows "(version n \<noteq> Some (store_version s) \<longrightarrow>
            (\<exists>n'. heap (resetHeadByVersion node s) node = Some n' \<and> headIndex n' = 0 \<and>
                  astResults n' = [] \<and> version n' = Some (store_version s) \<and>
                  childs n' = childs n))
       \<and> (version n = Some (store_version s) \<longrightarrow> resetHeadByVersion node s = s)
       \<and> visiter g vo node s = visiter g vo node (resetHeadByVersion node s)"
proof (intro conjI impI)
  assume "version n \<noteq> Some (store_version s)"
  then show "\<exists>n'. heap (resetHeadByVersion node s) node = Some n' \<and> headIndex n' = 0 \<and>
                  astResults n' = [] \<and> version n' = Some (store_version s) \<and> childs n' = childs n"
    using assms by (cases n) (simp_all add: resetHeadByVersion_def update_node_def resetHeadByVersion_node_def)
next
  assume "version n = Some (store_version s)"
  then show "resetHeadByVersion node s = s"
    using assms by (simp add: resetHeadByVersion_def update_node_id resetHeadByVersion_node_def)
next
  show "visiter g vo node s = visiter g vo node (resetHeadByVersion node s)"
    using visiter_after_reset[OF assms] by simp
qed


theorem resetHeadByVersion_on_entry_witness:
  "\<exists>n'. heap (resetHeadByVersion 0 (expr_parser\<lparr>store_version := 1\<rparr>)) 0 = Some n' \<and>
        headIndex n' = 0 \<and> astResults n' = [] \<and> version n' = Some 1 \<and> length (childs n') = 3"
proof -
  obtain c where h: "heap (expr_parser\<lparr>store_version := 1\<rparr>) 0 = Some (ChainNode c)"
    and v: "cn_version c = None" and l: "length (cn_childs c) = 3"
    by (simp add: expr_parser_def expr_grammar_def evals)
  from resetHeadByVersion_on_entry[OF h, of expr_grammar parserOption] v l
  show ?thesis by auto
qed

subsection \<open>Climbing the parents, popping a chance\<close>

lemma stamp_simps [simp]:
  "parentNode (stamp v i n) = parentNode n"
  "parentIndex (stamp v i n) = parentIndex n"
  "childs (stamp v i n) = childs n"
  "astResults (stamp v i n) = astResults n"
  "isParentNode (stamp v i n) = isParentNode n"
  "isParentNode n \<Longrightarrow> headIndex (stamp v i n) = i"
  "isParentNode n \<Longrightarrow> version (stamp v i n) = Some v"
  "stamp v i (MatchNode m) = MatchNode m"
  "stamp v i (FunctionNode f) = FunctionNode f"
  "stamp v i (stamp v j n) = stamp v i n"
  by (cases n; simp add: stamp_def)+

lemma same_links_refl [simp]: "same_links h h"
  by (simp add: same_links_def)

lemma same_linksD1:
  "same_links h h' \<Longrightarrow> h r = Some n \<Longrightarrow> \<exists>n'. h' r = Some n' \<and> parentNode n' = parentNode n"
  by (simp add: same_links_def)

lemma same_linksD2: "same_links h h' \<Longrightarrow> h r = None \<Longrightarrow> h' r = None"
  by (simp add: same_links_def)

lemma same_links_sym:
  assumes "same_links h h'"
  shows "same_links h' h"
  unfolding same_links_def
proof (intro allI conjI impI)
  fix r assume "h' r = None"
  then show "h r = None" using same_linksD1[OF assms, of r] by (cases "h r") auto
next
  fix r n' assume "h' r = Some n'"
  then show "\<exists>n. h r = Some n \<and> parentNode n = parentNode n'"
    using same_linksD1[OF assms, of r] same_linksD2[OF assms, of r] by (cases "h r") auto
qed

lemma same_links_upd:
  "h p = Some pn \<Longrightarrow> parentNode pn' = parentNode pn \<Longrightarrow> same_links h (h(p \<mapsto> pn'))"
  by (simp add: same_links_def)

lemma climbs_same_links: "climbs h node k \<Longrightarrow> same_links h h' \<Longrightarrow> climbs h' node k"
proof (induction rule: climbs.induct)
  case (root node n)
  then obtain n' where "h' node = Some n'" "parentNode n' = None"
    using same_linksD1[of h h' node n] by auto
  then show ?case by (rule climbs.root)
next
  case (link node n p k)
  then obtain n' where "h' node = Some n'" "parentNode n' = Some p"
    using same_linksD1[of h h' node n] by auto
  then show ?case using link by (auto intro: climbs.link)
qed

lemma on_spine_same_links: "on_spine h node c \<Longrightarrow> same_links h h' \<Longrightarrow> on_spine h' node c"
proof (induction rule: on_spine.induct)
  case self
  show ?case by (rule on_spine.self)
next
  case (up c n p)
  then obtain n' where "h' c = Some n'" "parentNode n' = Some p"
    using same_linksD1[of h h' c n] by auto
  with up show ?case by (auto intro: on_spine.up)
qed

lemma climbs_unique: "climbs h node k \<Longrightarrow> climbs h node j \<Longrightarrow> k = j"
proof (induction arbitrary: j rule: climbs.induct)
  case (root node n)
  then show ?case by (auto elim: climbs.cases)
next
  case (link node n p k)
  from link.prems link.hyps(1,2) obtain j' where "j = Suc j'" "climbs h p j'"
    by (auto elim: climbs.cases)
  with link.IH show ?case by simp
qed

lemma climbs_on_spine: "on_spine h node c \<Longrightarrow> climbs h node k \<Longrightarrow> \<exists>j\<le>k. climbs h c j"
proof (induction rule: on_spine.induct)
  case self
  then show ?case by auto
next
  case (up c n p)
  then obtain j where j: "j \<le> k" "climbs h c j" by auto
  from j(2) up.hyps(2,3) obtain j' where "j = Suc j'" "climbs h p j'"
    by (auto elim: climbs.cases)
  with j show ?case by (intro exI[of _ j']) simp
qed

lemma climbs_acyclic:
  assumes "climbs h p k" and "on_spine h p c" and "h c = Some n" and "parentNode n = Some p"
  shows False
proof -
  from climbs_on_spine[OF assms(2,1)] obtain j where j: "j \<le> k" "climbs h c j" by auto
  from j(2) assms(3,4) obtain j' where "j = Suc j'" "climbs h p j'"
    by (auto elim: climbs.cases)
  with climbs_unique[OF assms(1)] j show False by auto
qed

lemma on_spine_trans: "on_spine h b c \<Longrightarrow> on_spine h a b \<Longrightarrow> on_spine h a c"
  by (induction rule: on_spine.induct) (auto intro: on_spine.up)

lemma on_spine_from_parent:
  assumes "on_spine h node c" and "c \<noteq> node" and "h node = Some n" and "parentNode n = Some p"
  shows "on_spine h p c"
  using assms
proof (induction rule: on_spine.induct)
  case self
  then show ?case by simp
next
  case (up c n' p')
  show ?case
  proof (cases "c = node")
    case True
    with up.hyps up.prems have "p' = p" by simp
    then show ?thesis by (simp add: on_spine.self)
  next
    case False
    with up have "on_spine h p c" by simp
    then show ?thesis using up.hyps(2,3) by (rule on_spine.up)
  qed
qed

lemma resetParents_node:
  "resetParentsHeadIndexAndVersion h node v = Some (Inr h') \<Longrightarrow> \<exists>n. h node = Some n"
  by (subst (asm) resetParentsHeadIndexAndVersion.simps) (simp split: option.splits)

lemma resetParents_root:
  "resetParentsHeadIndexAndVersion h node v = Some (Inr h') \<Longrightarrow> h node = Some n \<Longrightarrow>
     parentNode n = None \<Longrightarrow> h' = h"
  by (subst (asm) resetParentsHeadIndexAndVersion.simps) simp

lemma clamp_min:
  "(if length cs < i + 1 then length cs else i + 1) = min (i + 1) (length (cs :: ref list))"
  by (simp add: min_def)

lemma resetParents_link:
  "resetParentsHeadIndexAndVersion h node v = Some (Inr h') \<Longrightarrow> h node = Some n \<Longrightarrow>
     parentNode n = Some p \<Longrightarrow>
     \<exists>pn. h p = Some pn \<and> isParentNode pn \<and>
       resetParentsHeadIndexAndVersion
         (h(p \<mapsto> stamp v (min (parentIndex n + 1) (length (childs pn))) pn)) p v = Some (Inr h')"
  apply (subst (asm) resetParentsHeadIndexAndVersion.simps)
  apply (simp only: clamp_min stamp_def [symmetric])
  apply (simp split: option.splits if_splits)
  done

lemma resetParents_climbs_aux:
  assumes a: "resetParentsHeadIndexAndVersion h node v = Some y"
  shows "\<forall>h'. y = Inr h' \<longrightarrow> (\<exists>k. climbs h node k)"
proof (induction rule: resetParentsHeadIndexAndVersion.raw_induct[OF _ a])
  case (1 rp h node v y)
  show ?case
  proof (intro allI impI)
    fix h' assume y: "y = Inr h'"
    from 1(2) y obtain n where n: "h node = Some n" by (auto split: option.splits)
    show "\<exists>k. climbs h node k"
    proof (cases "parentNode n")
      case None
      with n show ?thesis by (auto intro: climbs.root)
    next
      case (Some p)
      with 1(2) y n obtain pn where pn: "h p = Some pn" "isParentNode pn"
        by (auto split: option.splits if_splits)
      let ?h1 = "h(p \<mapsto> set_version v (set_headIndex (if length (childs pn) < parentIndex n + 1
                                 then length (childs pn) else parentIndex n + 1) pn))"
      from 1(2) y n Some pn have "rp ?h1 p v = Some (Inr h')"
        by simp
      from 1(1)[OF this] obtain k where "climbs ?h1 p k" by blast
      moreover have "same_links ?h1 h"
        by (rule same_links_sym, rule same_links_upd[of h p pn]) (simp_all add: pn stamp_def[symmetric])
      ultimately have "climbs h p k" by (rule climbs_same_links)
      with n Some show ?thesis by (auto intro: climbs.link)
    qed
  qed
qed

lemma resetParents_climbs:
  "resetParentsHeadIndexAndVersion h node v = Some (Inr h') \<Longrightarrow> \<exists>k. climbs h node k"
  using resetParents_climbs_aux by blast

lemma on_spine_root:
  assumes "on_spine h node c" and "h node = Some n" and "parentNode n = None"
  shows "c = node"
  using assms by (induction rule: on_spine.induct) auto

lemma climbs_0: "climbs h node 0 \<Longrightarrow> \<exists>n. h node = Some n \<and> parentNode n = None"
  by (auto elim: climbs.cases)

lemma climbs_Suc:
  "climbs h node (Suc k) \<Longrightarrow> \<exists>n p. h node = Some n \<and> parentNode n = Some p \<and> climbs h p k"
  by (auto elim: climbs.cases)

lemma proper_ancestor_parent:
  "h node = Some n \<Longrightarrow> parentNode n = Some p \<Longrightarrow> proper_ancestor h node p"
  unfolding proper_ancestor_def by (blast intro: on_spine.self)

lemma proper_ancestor_up:
  "h node = Some n \<Longrightarrow> parentNode n = Some p \<Longrightarrow> proper_ancestor h p q \<Longrightarrow> proper_ancestor h node q"
  unfolding proper_ancestor_def
  by (meson on_spine.self on_spine.up on_spine_trans)

lemma proper_ancestor_same_links:
  assumes "same_links h h'" and "proper_ancestor h node q"
  shows "proper_ancestor h' node q"
proof -
  from assms(2) obtain c n where c: "on_spine h node c" "h c = Some n" "parentNode n = Some q"
    unfolding proper_ancestor_def by blast
  from same_linksD1[OF assms(1) c(2)] c(3) obtain n' where "h' c = Some n'" "parentNode n' = Some q"
    by auto
  with on_spine_same_links[OF c(1) assms(1)] show ?thesis
    unfolding proper_ancestor_def by blast
qed

lemma same_links_trans:
  assumes "same_links h h1" and "same_links h1 h2"
  shows "same_links h h2"
  unfolding same_links_def
proof (intro allI conjI impI)
  fix r assume "h r = None"
  then show "h2 r = None" using assms same_linksD2 by metis
next
  fix r n assume "h r = Some n"
  from same_linksD1[OF assms(1) this] obtain n1 where "h1 r = Some n1" "parentNode n1 = parentNode n"
    by auto
  with same_linksD1[OF assms(2), of r n1] show "\<exists>n'. h2 r = Some n' \<and> parentNode n' = parentNode n"
    by auto
qed

lemma climbs_not_own_ancestor: "climbs h p k \<Longrightarrow> \<not> proper_ancestor h p p"
  unfolding proper_ancestor_def using climbs_acyclic by blast

lemma resetParents_result:
  "climbs h node k \<Longrightarrow> resetParentsHeadIndexAndVersion h node v = Some (Inr h') \<Longrightarrow>
     same_links h h' \<and>
     (\<forall>q. \<not> proper_ancestor h node q \<longrightarrow> h' q = h q) \<and>
     (\<forall>c n p pn. on_spine h node c \<longrightarrow> h c = Some n \<longrightarrow> parentNode n = Some p \<longrightarrow> h p = Some pn \<longrightarrow>
        h' p = Some (stamp v (min (parentIndex n + 1) (length (childs pn))) pn) \<and> isParentNode pn)"
proof (induction k arbitrary: h node h')
  case 0
  from climbs_0[OF 0(1)] obtain n where n: "h node = Some n" "parentNode n = None" by auto
  with 0 have "h' = h" by (simp add: resetParents_root)
  moreover have "\<not> (on_spine h node c \<and> h c = Some n' \<and> parentNode n' = Some p)" for c n' p
    using on_spine_root[of h node c n] n by auto
  ultimately show ?case by auto
next
  case (Suc k)
  from climbs_Suc[OF Suc.prems(1)] obtain n p where n: "h node = Some n" "parentNode n = Some p"
    and cp: "climbs h p k" by auto
  from resetParents_link[OF Suc.prems(2) n]
  obtain pn where pn: "h p = Some pn" "isParentNode pn"
    and r: "resetParentsHeadIndexAndVersion
         (h(p \<mapsto> stamp v (min (parentIndex n + 1) (length (childs pn))) pn)) p v = Some (Inr h')"
    by auto
  define h1 where "h1 = h(p \<mapsto> stamp v (min (parentIndex n + 1) (length (childs pn))) pn)"
  have sl: "same_links h h1" unfolding h1_def by (rule same_links_upd[of h p pn]) (simp_all add: pn)
  have sl': "same_links h1 h" by (rule same_links_sym[OF sl])
  have c1: "climbs h1 p k" using cp sl by (rule climbs_same_links)
  from Suc.IH[OF c1 r[folded h1_def]]
  have IH1: "same_links h1 h'"
    and IH2: "\<And>q. \<not> proper_ancestor h1 p q \<Longrightarrow> h' q = h1 q"
    and IH3: "\<And>c n p' pn'. on_spine h1 p c \<Longrightarrow> h1 c = Some n \<Longrightarrow> parentNode n = Some p' \<Longrightarrow>
        h1 p' = Some pn' \<Longrightarrow>
        h' p' = Some (stamp v (min (parentIndex n + 1) (length (childs pn'))) pn') \<and> isParentNode pn'"
    by blast+
  have h1p: "h1 p = Some (stamp v (min (parentIndex n + 1) (length (childs pn))) pn)"
    by (simp add: h1_def)
  have h1q: "q \<noteq> p \<Longrightarrow> h1 q = h q" for q by (simp add: h1_def)
  have nopp: "\<not> proper_ancestor h1 p p" using climbs_not_own_ancestor[OF c1] .
  have A: "same_links h h'" using sl IH1 by (rule same_links_trans)
  have B: "h' q = h q" if "\<not> proper_ancestor h node q" for q
  proof -
    have "q \<noteq> p" using that proper_ancestor_parent[of h node n p] n by auto
    moreover have "\<not> proper_ancestor h1 p q"
      using that proper_ancestor_up[of h node n p q] n proper_ancestor_same_links[OF sl', of p q]
      by blast
    ultimately show ?thesis using IH2 h1q by simp
  qed
  have C: "h' p' = Some (stamp v (min (parentIndex n' + 1) (length (childs pn'))) pn') \<and> isParentNode pn'"
    if asm: "on_spine h node c" "h c = Some n'" "parentNode n' = Some p'" "h p' = Some pn'"
    for c n' p' pn'
  proof (cases "c = node")
    case True
    with asm n have "p' = p" "n' = n" "pn' = pn" using pn by auto
    then show ?thesis using IH2[OF nopp] h1p pn by simp
  next
    case False
    from on_spine_from_parent[OF asm(1) False n] have sp: "on_spine h p c" .
    then have sp1: "on_spine h1 p c" using sl by (rule on_spine_same_links)
    have "p' \<noteq> p"
    proof
      assume "p' = p"
      with asm sp have "proper_ancestor h p p" unfolding proper_ancestor_def by blast
      then show False using climbs_not_own_ancestor[OF cp] by simp
    qed
    then have hp': "h1 p' = Some pn'" using asm h1q by simp
    obtain n1 where n1: "h1 c = Some n1" "parentNode n1 = Some p'" "parentIndex n1 = parentIndex n'"
      using asm(2,3) by (cases "c = p") (auto simp: h1_def pn)
    from IH3[OF sp1 n1(1,2) hp'] n1(3) show ?thesis by simp
  qed
  from A B C show ?case by blast
qed


lemma resetParents_spine:
  assumes "resetParentsHeadIndexAndVersion h node v = Some (Inr h')"
  shows "ancestors_resume h h' node v"
  unfolding ancestors_resume_def
proof (intro allI impI)
  fix c n p pn
  assume a: "on_spine h node c" "h c = Some n" "parentNode n = Some p" "h p = Some pn"
  from resetParents_climbs[OF assms] obtain k where k: "climbs h node k" by blast
  from resetParents_result[OF k assms] a
  have "h' p = Some (stamp v (min (parentIndex n + 1) (length (childs pn))) pn)" "isParentNode pn"
    by blast+
  then show "\<exists>pn'. h' p = Some pn' \<and>
               headIndex pn' = min (parentIndex n + 1) (length (childs pn)) \<and>
               version pn' = Some v \<and> astResults pn' = astResults pn \<and> childs pn' = childs pn \<and>
               resetHeadByVersion_node v pn' = pn'"
    by (simp add: resetHeadByVersion_node_def)
qed

lemma resetParents_after_stamp:
  assumes n: "h node = Some n"
    and r: "resetParentsHeadIndexAndVersion (h(node \<mapsto> stamp v i n)) node v = Some (Inr h')"
  shows "ancestors_resume h h' node v"
  unfolding ancestors_resume_def
proof (intro allI impI)
  fix c n' p pn
  assume a: "on_spine h node c" "h c = Some n'" "parentNode n' = Some p" "h p = Some pn"
  let ?h1 = "h(node \<mapsto> stamp v i n)"
  have sl: "same_links h ?h1" by (rule same_links_upd[of h node n]) (simp_all add: n)
  from resetParents_climbs[OF r] obtain k where k: "climbs ?h1 node k" by blast
  have sp1: "on_spine ?h1 node c" using a(1) sl by (rule on_spine_same_links)
  obtain n1 where n1: "?h1 c = Some n1" "parentNode n1 = Some p" "parentIndex n1 = parentIndex n'"
    using a(2,3) n by (cases "c = node") auto
  have "proper_ancestor ?h1 node p" unfolding proper_ancestor_def using sp1 n1 by blast
  with climbs_not_own_ancestor[OF k] have "p \<noteq> node" by auto
  then have hp: "?h1 p = Some pn" using a(4) by simp
  from resetParents_result[OF k r] sp1 n1(1,2) hp
  have "h' p = Some (stamp v (min (parentIndex n1 + 1) (length (childs pn))) pn)" "isParentNode pn"
    by blast+
  then show "\<exists>pn'. h' p = Some pn' \<and>
               headIndex pn' = min (parentIndex n' + 1) (length (childs pn)) \<and>
               version pn' = Some v \<and> astResults pn' = astResults pn \<and> childs pn' = childs pn \<and>
               resetHeadByVersion_node v pn' = pn'"
    by (simp add: resetHeadByVersion_node_def n1(3))
qed

lemma tryChances_pop:
  assumes "restChances s = cs @ [ch]"
  shows "tryChances vo node s =
    (case heap s (ch_node ch) of
       None \<Rightarrow> Some (Inl IllFormedGraph)
     | Some n \<Rightarrow>
         if \<not> isParentNode n then Some (Inl IllFormedGraph)
         else (case resetParentsHeadIndexAndVersion
                      ((heap s)(ch_node ch \<mapsto> stamp (parser_version s + 1) (ch_headIndex ch) n))
                      (ch_node ch) (parser_version s + 1) of
                 None \<Rightarrow> None
               | Some (Inl e) \<Rightarrow> Some (Inl e)
               | Some (Inr h) \<Rightarrow>
                   Some (Inr (CVisiter (ch_node ch),
                              s\<lparr>parser_version := parser_version s + 1,
                                store_version := parser_version s + 1,
                                restChances := cs,
                                scanner := setIndex (ch_tokenIndex ch) (scanner s),
                                heap := h\<rparr>))))"
  using assms
  by (simp add: tryChances_def getNewVersion_def update_node_def Let_def stamp_def
           split: option.splits sum.splits)



lemma findNextMatchNodes_skip:
  assumes "heap t start = Some n" and "parentNode n = Some p" and "heap t p = Some (TreeNode tn)"
  shows "findNextMatchNodes g start t = findNextMatchNodes g p t"
  using assms by (subst findNextMatchNodes.simps) simp

lemma findNextMatchNodes_probe:
  assumes "heap t start = Some n"
    and "case parentNode n of None \<Rightarrow> True
         | Some p \<Rightarrow> (case heap t p of Some (TreeNode tn) \<Rightarrow> False | _ \<Rightarrow> True)"
  shows "findNextMatchNodes g start t =
     (case resetParentsHeadIndexAndVersion (heap t) start (parser_version t + 1) of
        None \<Rightarrow> None
      | Some (Inl e) \<Rightarrow> Some (Inl e)
      | Some (Inr h) \<Rightarrow>
          (case run g probeOption (CVisiter (case parentNode n of Some p \<Rightarrow> p | None \<Rightarrow> start))
                  (t\<lparr>parser_version := parser_version t + 1, heap := h, nextMatchNodes := [],
                     scanner := \<lparr>sc_tokens = [], sc_index = 0\<rparr>,
                     store_version := parser_version t + 1, restChances := []\<rparr>) of
             None \<Rightarrow> None
           | Some (Inl e) \<Rightarrow> Some (Inl e)
           | Some (Inr t2) \<Rightarrow>
               Some (Inr (nextMatchNodes t2,
                          t2\<lparr>scanner := scanner t, store_version := store_version t,
                             restChances := restChances t, nextMatchNodes := nextMatchNodes t\<rparr>))))"
  using assms
  by (subst findNextMatchNodes.simps)
     (auto simp: getNewVersion_def newVisiter_def split: option.splits node.splits sum.splits)

text \<open>
  C9: when \<^verbatim>\<open>tryChances\<close> pops a chance, the ancestors of the chance's node resume past
  the spine in the store it leaves, under the new version: every ancestor has its head
  index set to the parent index of its spine child plus one, clamped by the number of its
  children, and the new version, keeps its \<open>astResults\<close>, and is not reset to head index 0
  by the visiter under that version. When \<^verbatim>\<open>findNextMatchNodes\<close> prepares the probe (on a
  node whose parent is no tree node; below a tree node it starts over from the parent) the
  same holds of the ancestors of its node in the store the probe runs on, and what it
  returns is what that probe collects.
\<close>
theorem chance_pop_resets_ancestors:
  "(restChances s = cs @ [ch] \<longrightarrow> tryChances vo node s = Some (Inr (c, s')) \<longrightarrow>
      store_version s' = parser_version s + 1 \<and>
      ancestors_resume (heap s) (heap s') (ch_node ch) (store_version s')) \<and>
   (heap t start = Some n \<longrightarrow>
    (case parentNode n of None \<Rightarrow> True
     | Some p \<Rightarrow> (case heap t p of Some (TreeNode tn) \<Rightarrow> False | _ \<Rightarrow> True)) \<longrightarrow>
    findNextMatchNodes g start t = Some (Inr (found, t')) \<longrightarrow>
      (\<exists>h t2. resetParentsHeadIndexAndVersion (heap t) start (parser_version t + 1) = Some (Inr h) \<and>
              ancestors_resume (heap t) h start (parser_version t + 1) \<and>
              run g probeOption (CVisiter (case parentNode n of Some p \<Rightarrow> p | None \<Rightarrow> start))
                (t\<lparr>parser_version := parser_version t + 1, heap := h, nextMatchNodes := [],
                   scanner := \<lparr>sc_tokens = [], sc_index = 0\<rparr>,
                   store_version := parser_version t + 1, restChances := []\<rparr>) = Some (Inr t2) \<and>
              found = nextMatchNodes t2)) \<and>
   (heap t start = Some n \<longrightarrow> parentNode n = Some q \<longrightarrow> heap t q = Some (TreeNode tq) \<longrightarrow>
      findNextMatchNodes g start t = findNextMatchNodes g q t)"
proof (intro conjI impI)
  assume a: "restChances s = cs @ [ch]" "tryChances vo node s = Some (Inr (c, s'))"
  from a(2)[unfolded tryChances_pop[OF a(1)]]
  obtain m h where m: "heap s (ch_node ch) = Some m"
    and r: "resetParentsHeadIndexAndVersion
              ((heap s)(ch_node ch \<mapsto> stamp (parser_version s + 1) (ch_headIndex ch) m))
              (ch_node ch) (parser_version s + 1) = Some (Inr h)"
    and s': "s' = s\<lparr>parser_version := parser_version s + 1,
                    store_version := parser_version s + 1, restChances := cs,
                    scanner := setIndex (ch_tokenIndex ch) (scanner s), heap := h\<rparr>"
    by (auto split: option.splits sum.splits if_splits)
  from s' show "store_version s' = parser_version s + 1" by simp
  from resetParents_after_stamp[OF m r] s'
  show "ancestors_resume (heap s) (heap s') (ch_node ch) (store_version s')" by simp
next
  assume a: "heap t start = Some n"
    "case parentNode n of None \<Rightarrow> True
     | Some p \<Rightarrow> (case heap t p of Some (TreeNode tn) \<Rightarrow> False | _ \<Rightarrow> True)"
    "findNextMatchNodes g start t = Some (Inr (found, t'))"
  from a(3)[unfolded findNextMatchNodes_probe[OF a(1,2)]]
  obtain h t2 where
    r: "resetParentsHeadIndexAndVersion (heap t) start (parser_version t + 1) = Some (Inr h)"
    and p: "run g probeOption (CVisiter (case parentNode n of Some p \<Rightarrow> p | None \<Rightarrow> start))
                (t\<lparr>parser_version := parser_version t + 1, heap := h, nextMatchNodes := [],
                   scanner := \<lparr>sc_tokens = [], sc_index = 0\<rparr>,
                   store_version := parser_version t + 1, restChances := []\<rparr>) = Some (Inr t2)"
    and f: "found = nextMatchNodes t2"
    by (auto split: option.splits sum.splits)
  from r resetParents_spine[OF r] p f
  show "\<exists>h t2. resetParentsHeadIndexAndVersion (heap t) start (parser_version t + 1) = Some (Inr h) \<and>
              ancestors_resume (heap t) h start (parser_version t + 1) \<and>
              run g probeOption (CVisiter (case parentNode n of Some p \<Rightarrow> p | None \<Rightarrow> start))
                (t\<lparr>parser_version := parser_version t + 1, heap := h, nextMatchNodes := [],
                   scanner := \<lparr>sc_tokens = [], sc_index = 0\<rparr>,
                   store_version := parser_version t + 1, restChances := []\<rparr>) = Some (Inr t2) \<and>
              found = nextMatchNodes t2"
    by blast
next
  assume "heap t start = Some n" "parentNode n = Some q" "heap t q = Some (TreeNode tq)"
  then show "findNextMatchNodes g start t = findNextMatchNodes g q t"
    by (rule findNextMatchNodes_skip)
qed


theorem chance_pop_resets_ancestors_witness:
  "(\<exists>c s' pn'. tryChances parserOption 3
        (expr_parser\<lparr>restChances := [\<lparr>ch_node = 2, ch_headIndex = 1, ch_tokenIndex = 1\<rparr>]\<rparr>)
          = Some (Inr (c, s')) \<and>
        heap s' 0 = Some pn' \<and> headIndex pn' = 2 \<and> version pn' = Some (store_version s') \<and>
        astResults pn' = [] \<and> resetHeadByVersion_node (store_version s') pn' = pn') \<and>
   (\<exists>found t' h pn'. findNextMatchNodes expr_grammar 2 expr_parser = Some (Inr (found, t')) \<and>
        resetParentsHeadIndexAndVersion (heap expr_parser) 2 (parser_version expr_parser + 1)
          = Some (Inr h) \<and>
        h 0 = Some pn' \<and> headIndex pn' = 2 \<and> version pn' = Some (parser_version expr_parser + 1))"
proof -
  let ?ch = "\<lparr>ch_node = 2, ch_headIndex = 1, ch_tokenIndex = 1\<rparr>"
  let ?s = "expr_parser\<lparr>restChances := [?ch]\<rparr>"
  obtain t where t: "heap expr_parser 2 = Some (TreeNode t)" "tn_parentNode t = Some 0"
    "tn_parentIndex t = 1"
    by (simp add: expr_parser_def expr_grammar_def evals)
  obtain c0 where c0: "heap expr_parser 0 = Some (ChainNode c0)" "length (cn_childs c0) = 3"
    "cn_astResults c0 = []"
    by (simp add: expr_parser_def expr_grammar_def evals)
  obtain c s' where r: "tryChances parserOption 3 ?s = Some (Inr (c, s'))"
    by (simp add: expr_parser_def expr_grammar_def evals)
  obtain found t' where f: "findNextMatchNodes expr_grammar 2 expr_parser = Some (Inr (found, t'))"
    by (simp add: expr_parser_def expr_grammar_def evals)
  note inst = chance_pop_resets_ancestors[of ?s "[]" ?ch parserOption 3 c s' expr_parser 2
      "TreeNode t" expr_grammar found t']
  have rc: "restChances ?s = [] @ [?ch]" by simp
  have "ancestors_resume (heap ?s) (heap s') (ch_node ?ch) (store_version s')"
    by (rule inst[THEN conjunct1, rule_format, OF rc r, THEN conjunct2])
  then have "ancestors_resume (heap expr_parser) (heap s') 2 (store_version s')"
    by (simp del: One_nat_def)
  then have A: "\<exists>pn'. heap s' 0 = Some pn' \<and> headIndex pn' = 2 \<and>
       version pn' = Some (store_version s') \<and> astResults pn' = [] \<and>
       resetHeadByVersion_node (store_version s') pn' = pn'"
    unfolding ancestors_resume_def using on_spine.self[of "heap expr_parser" 2] t c0 by fastforce
  have np: "case parentNode (TreeNode t) of None \<Rightarrow> True
            | Some p \<Rightarrow> (case heap expr_parser p of Some (TreeNode tn) \<Rightarrow> False | _ \<Rightarrow> True)"
    using t c0 by simp
  from inst[THEN conjunct2, THEN conjunct1, rule_format, OF t(1) np f] obtain h where
    h: "resetParentsHeadIndexAndVersion (heap expr_parser) 2 (parser_version expr_parser + 1)
          = Some (Inr h)"
    "ancestors_resume (heap expr_parser) h 2 (parser_version expr_parser + 1)"
    by auto
  from h(2) have B: "\<exists>pn'. h 0 = Some pn' \<and> headIndex pn' = 2 \<and>
       version pn' = Some (parser_version expr_parser + 1)"
    unfolding ancestors_resume_def using on_spine.self[of "heap expr_parser" 2] t c0 by fastforce
  from A B r f h(1) show ?thesis by blast
qed

subsection \<open>What the builder, the visiter and the probe leave alone\<close>

lemma graph_step_refl [simp]: "graph_step s s"
  by (simp add: graph_step_def keeps_match_def)

lemma keeps_match_trans: "keeps_match h h1 \<Longrightarrow> keeps_match h1 h2 \<Longrightarrow> keeps_match h h2"
  by (simp add: keeps_match_def)

lemma graph_step_trans: "graph_step s s1 \<Longrightarrow> graph_step s1 s2 \<Longrightarrow> graph_step s s2"
  unfolding graph_step_def using keeps_match_trans by auto

lemma graph_step_alloc: "graph_step s (snd (alloc n s))"
  by (auto simp: graph_step_def alloc_def rest_of_def alloc_ok_def keeps_match_def less_Suc_eq)

lemma graph_step_update_node: "fixes_match f \<Longrightarrow> graph_step s (update_node r f s)"
  by (auto simp: graph_step_def update_node_def rest_of_def alloc_ok_def keeps_match_def fixes_match_def
           split: option.splits)

lemma fixes_match_simps [simp]:
  "fixes_match (set_childs cs)" "fixes_match (set_headIndex i)" "fixes_match (set_version v)"
  "fixes_match (resetHeadByVersion_node v)"
  "fixes_match (\<lambda>n. case n of ChainNode c \<Rightarrow> ChainNode (c\<lparr>cn_isPlus := True\<rparr>) | _ \<Rightarrow> n)"
  by (simp_all add: fixes_match_def resetHeadByVersion_node_def)

lemma builder_graph_step:
  "(createNodeByElement e parent pidx s = Inr (r, s') \<longrightarrow> graph_step s s') \<and>
   (createNodeByElement e parent pidx s = Inl err \<longrightarrow> \<not> budget_error err)"
  "(createChilds es p i s = Inr (rs, s') \<longrightarrow> graph_step s s') \<and>
   (createChilds es p i s = Inl err \<longrightarrow> \<not> budget_error err)"
  "(newChainNode es solve parent fname pidx s = Inr (r, s') \<longrightarrow> graph_step s s') \<and>
   (newChainNode es solve parent fname pidx s = Inl err \<longrightarrow> \<not> budget_error err)"
proof (induction e parent pidx s and es p i s and es solve parent fname pidx s
    arbitrary: r s' err and rs s' err and r s' err
    rule: createNodeByElement_createChilds_newChainNode.induct)
  case (1 es parent pidx s)
  let ?n = "TreeNode \<lparr>tn_parentNode = parent, tn_childs = [], tn_headIndex = 0,
                     tn_version = None, tn_parentIndex = pidx\<rparr>"
  define s1 where "s1 = snd (alloc ?n s)"
  have a: "alloc ?n s = (nextRef s, s1)" by (simp add: s1_def alloc_def)
  note IH = 1[OF refl a[symmetric]]
  have g1: "graph_step s s1" unfolding s1_def by (rule graph_step_alloc)
  show ?case
  proof (cases "createChilds es (nextRef s) 0 s1")
    case (Inl e)
    with IH show ?thesis by (simp add: a)
  next
    case (Inr x)
    obtain cs s2 where x: "x = (cs, s2)" by (cases x)
    from IH Inr x have g12: "graph_step s1 s2" by simp
    have "graph_step s (update_node (nextRef s) (set_childs cs) s2)"
      by (rule graph_step_trans[OF g1], rule graph_step_trans[OF g12],
          rule graph_step_update_node) simp
    then show ?thesis by (auto simp: a Inr x)
  qed
next
  case (2 w parent pidx s)
  then show ?case using graph_step_alloc[of s] by (auto simp: alloc_def)
next
  case (3 b parent pidx s)
  then show ?case using graph_step_alloc[of s] by (auto simp: alloc_def)
next
  case (4 displayName p parent pidx s)
  then show ?case using graph_step_alloc[of s] by (auto simp: alloc_def)
next
  case (5 es solveAst isPlus parent pidx s)
  show ?case
  proof (cases "newChainNode es solveAst parent None pidx s")
    case (Inl e)
    with 5 show ?thesis by (simp del: newChainNode.simps)
  next
    case (Inr x)
    obtain c s1 where x: "x = (c, s1)" by (cases x)
    from 5 Inr x have g1: "graph_step s s1" by simp
    have "graph_step s (update_node c
            (\<lambda>n. case n of ChainNode c \<Rightarrow> ChainNode (c\<lparr>cn_isPlus := True\<rparr>) | _ \<Rightarrow> n) s1)"
      by (rule graph_step_trans[OF g1], rule graph_step_update_node) simp
    with g1 show ?thesis by (auto simp: Inr x simp del: newChainNode.simps)
  qed
next
  case (6 name parent pidx s)
  then show ?case using graph_step_alloc[of s] by (auto simp: alloc_def)
next
  case (7 parent pidx s)
  then show ?case by (simp add: budget_error_def)
next
  case (8 parent pidx s)
  then show ?case by (simp add: budget_error_def)
next
  case (9 parent i s)
  then show ?case by simp
next
  case (10 e es parent i s)
  show ?case
  proof (cases "createNodeByElement e (Some parent) i s")
    case (Inl e1)
    with 10(1) show ?thesis by simp
  next
    case (Inr x)
    obtain c s1 where x: "x = (c, s1)" by (cases x)
    from 10(1) Inr x have g1: "graph_step s s1" by simp
    note IH = 10(2)[OF Inr x[symmetric], simplified]
    show ?thesis
    proof (cases "createChilds es parent (Suc i) s1")
      case (Inl e2)
      with IH show ?thesis by (simp add: Inr x)
    next
      case Inr2: (Inr y)
      obtain cs s2 where y: "y = (cs, s2)" by (cases y)
      from IH Inr2 y have "graph_step s1 s2" by simp
      with g1 have "graph_step s s2" by (rule graph_step_trans)
      then show ?thesis by (auto simp: Inr x Inr2 y)
    qed
  qed
next
  case (11 elements solveAst parent functionName pidx s)
  let ?n = "ChainNode \<lparr>cn_parentNode = parent, cn_childs = [], cn_astResults = [],
       cn_headIndex = 0, cn_functionName = functionName,
       cn_solveAst = solveAst, cn_version = None, cn_isPlus = False,
       cn_plusHeadIndex = 0, cn_parentIndex = pidx\<rparr>"
  define s1 where "s1 = snd (alloc ?n s)"
  have a: "alloc ?n s = (nextRef s, s1)" by (simp add: s1_def alloc_def)
  have g1: "graph_step s s1" unfolding s1_def by (rule graph_step_alloc)
  show ?case
  proof (cases "ENullish \<in> set elements")
    case True
    then show ?thesis by (simp add: a budget_error_def)
  next
    case False
    then have sd: "solveDirectLeftRecursion elements functionName = Inr elements" by simp
    note IH = 11[OF refl a[symmetric] sd]
    show ?thesis
    proof (cases "createChilds elements (nextRef s) 0 s1")
      case (Inl e)
      with IH False show ?thesis by (simp add: a)
    next
      case (Inr x)
      obtain cs s2 where x: "x = (cs, s2)" by (cases x)
      from IH Inr x have g12: "graph_step s1 s2" by simp
      have "graph_step s (update_node (nextRef s) (set_childs cs) s2)"
        by (rule graph_step_trans[OF g1], rule graph_step_trans[OF g12],
            rule graph_step_update_node) simp
      then show ?thesis using False by (auto simp: a Inr x)
    qed
  qed
qed

lemmas createNodeByElement_graph_step = builder_graph_step(1)

lemmas createChilds_graph_step = builder_graph_step(2)

lemmas newChainNode_graph_step = builder_graph_step(3)

lemma graph_step_tables:
  "graph_step s (s\<lparr>relatedSet := a\<rparr>)" "graph_step s (s\<lparr>firstSet := b\<rparr>)"
  "graph_step s (s\<lparr>firstOrFunctionSet := c\<rparr>)"
  "graph_step s (s\<lparr>firstOrFunctionSet := c, firstSet := b\<rparr>)"
  by (simp_all add: graph_step_def rest_of_def alloc_ok_def keeps_match_def)

lemma relatedSet_add_graph_step: "graph_step s (relatedSet_add a b s)"
  by (simp add: relatedSet_add_def graph_step_tables split: option.splits)

lemma getFirstOrFunctionSet_graph_step:
  "(getFirstOrFunctionSet k node fname s = Some (Inr (r, s')) \<longrightarrow> graph_step s s') \<and>
   (getFirstOrFunctionSet k node fname s = Some (Inl err) \<longrightarrow> \<not> budget_error err)"
  "(getFirstOrFunctionSet_reduce k nodes fname all s = Some (Inr (rs, s')) \<longrightarrow> graph_step s s') \<and>
   (getFirstOrFunctionSet_reduce k nodes fname all s = Some (Inl err) \<longrightarrow> \<not> budget_error err)"
proof (induction k node fname s and k nodes fname all s
    arbitrary: r s' err and rs s' err
    rule: getFirstOrFunctionSet_getFirstOrFunctionSet_reduce.induct)
  case (1 node functionName s)
  then show ?case by simp
next
  case (2 k node functionName s)
  show ?case
  proof (cases "heap s node")
    case None
    then show ?thesis by (simp add: budget_error_def)
  next
    case (Some n)
    show ?thesis
    proof (cases n)
      case (MatchNode m)
      with Some show ?thesis by auto
    next
      case (FunctionNode f)
      with Some show ?thesis by (auto simp: relatedSet_add_graph_step)
    next
      case (TreeNode t)
      with Some 2(1)[OF Some TreeNode] show ?thesis
        by (auto split: option.splits sum.splits)
    next
      case (ChainNode c)
      show ?thesis
      proof (cases "cn_childs c")
        case Nil
        with Some ChainNode show ?thesis by auto
      next
        case (Cons c0 cs)
        with Some ChainNode 2(2)[OF Some ChainNode Cons] show ?thesis by auto
      qed
    qed
  qed
next
  case (3 k functionName all s)
  then show ?case by simp
next
  case (4 k "next" rest functionName all s)
  show ?case
  proof (cases "getFirstOrFunctionSet k next functionName s")
    case None
    then show ?thesis by simp
  next
    case (Some x)
    show ?thesis
    proof (cases x)
      case (Inl e)
      with Some 4(1) show ?thesis by auto
    next
      case (Inr y)
      obtain r1 s1 where y: "y = (r1, s1)" by (cases y)
      from 4(1) Some Inr y have g1: "graph_step s s1" by simp
      note IH = 4(2)[OF Some Inr y[symmetric]]
      from IH g1 show ?thesis
        by (auto simp: Some Inr y intro: graph_step_trans)
    qed
  qed
qed

lemma fold_unchanged [simp]: "fold (\<lambda>x st. st) xs s = s"
  by (induction xs) simp_all

lemma solveFirstSet_graph_step:
  "(solveFirstSet fname s = Inr s' \<longrightarrow> graph_step s s') \<and>
   (solveFirstSet fname s = Inl err \<longrightarrow> \<not> budget_error err)"
  by (auto simp: solveFirstSet_def Let_def graph_step_tables budget_error_def
           split: option.splits if_splits)

lemma generateFirstSet_graph_step:
  "(generateFirstSet node s = Some (Inr s') \<longrightarrow> graph_step s s') \<and>
   (generateFirstSet node s = Some (Inl err) \<longrightarrow> \<not> budget_error err)"
proof (cases "heap s node")
  case None
  then show ?thesis by (simp add: generateFirstSet_def budget_error_def)
next
  case (Some n)
  show ?thesis
  proof (cases n)
    case (ChainNode c)
    show ?thesis
    proof (cases "cn_functionName c")
      case None
      with Some ChainNode show ?thesis by (simp add: generateFirstSet_def budget_error_def)
    next
      case fn: (Some functionName)
      show ?thesis
      proof (cases "firstSet s functionName \<noteq> None")
        case True
        with Some ChainNode fn show ?thesis by (auto simp: generateFirstSet_def)
      next
        case False
        show ?thesis
        proof (cases "getFirstOrFunctionSet (nextRef s) node functionName s")
          case None
          with Some ChainNode fn False show ?thesis by (auto simp: generateFirstSet_def)
        next
          case g: (Some x)
          show ?thesis
          proof (cases x)
            case (Inl e)
            with Some ChainNode fn False g getFirstOrFunctionSet_graph_step(1)[of "nextRef s" node functionName s]
            show ?thesis by (auto simp: generateFirstSet_def)
          next
            case (Inr y)
            obtain r1 s1 where y: "y = (r1, s1)" by (cases y)
            from g Inr y getFirstOrFunctionSet_graph_step(1)[of "nextRef s" node functionName s r1 s1]
            have g1: "graph_step s s1" by simp
            have g2: "graph_step s1 (s1\<lparr>firstOrFunctionSet := (firstOrFunctionSet s1)(functionName \<mapsto> r1)\<rparr>)"
              by (rule graph_step_tables)
            from Some ChainNode fn False g Inr y g1 g2
              solveFirstSet_graph_step[of functionName
                "s1\<lparr>firstOrFunctionSet := (firstOrFunctionSet s1)(functionName \<mapsto> r1)\<rparr>" s' err]
            show ?thesis
              by (auto simp: generateFirstSet_def intro: graph_step_trans)
          qed
        qed
      qed
    qed
  qed (use Some in \<open>simp_all add: generateFirstSet_def budget_error_def\<close>)
qed

lemma chainNodeFactory_graph_step:
  "(chainNodeFactory es solve parent fname pidx s = Some (Inr (r, s')) \<longrightarrow> graph_step s s') \<and>
   (chainNodeFactory es solve parent fname pidx s = Some (Inl err) \<longrightarrow> \<not> budget_error err)"
proof (cases "newChainNode es solve parent fname pidx s")
  case (Inl e)
  with newChainNode_graph_step[of es solve parent fname pidx s r s' e]
  show ?thesis by (auto simp: chainNodeFactory_def simp del: newChainNode.simps)
next
  case (Inr x)
  obtain c s1 where x: "x = (c, s1)" by (cases x)
  from Inr x newChainNode_graph_step[of es solve parent fname pidx s c s1]
  have g1: "graph_step s s1" by (simp del: newChainNode.simps)
  from Inr x g1 generateFirstSet_graph_step[of c s1 s' err]
  show ?thesis
    by (auto simp: chainNodeFactory_def simp del: newChainNode.simps
             split: option.splits sum.splits if_splits intro: graph_step_trans)
qed

lemma functionNode_run_graph_step:
  "(functionNode_run g f s = Some (Inr (r, s')) \<longrightarrow> graph_step s s') \<and>
   (functionNode_run g f s = Some (Inl err) \<longrightarrow> \<not> budget_error err)"
  unfolding functionNode_run_def by (rule chainNodeFactory_graph_step)

lemma quiet_refl [simp]: "quiet vo s s"
  by (simp add: quiet_def keeps_match_def)

lemma quiet_trans: "quiet vo s s1 \<Longrightarrow> quiet vo s1 s2 \<Longrightarrow> quiet vo s s2"
  unfolding quiet_def using keeps_match_trans by auto

lemma graph_step_quiet: "graph_step s s' \<Longrightarrow> quiet vo s s'"
  by (auto simp: graph_step_def quiet_def rest_of_def)

lemma quiet_update_node: "fixes_match f \<Longrightarrow> quiet vo s (update_node r f s)"
  by (rule graph_step_quiet, rule graph_step_update_node)

lemma resetParents_error_aux:
  assumes a: "resetParentsHeadIndexAndVersion h node v = Some y"
  shows "\<forall>e. y = Inl e \<longrightarrow> e = IllFormedGraph"
proof (induction rule: resetParentsHeadIndexAndVersion.raw_induct[OF _ a])
  case (1 rp h node v y)
  then show ?case by (auto split: option.splits if_splits)
qed

lemma resetParents_error:
  "resetParentsHeadIndexAndVersion h node v = Some (Inl e) \<Longrightarrow> e = IllFormedGraph"
  using resetParents_error_aux by blast

lemma resetParents_keeps:
  assumes "resetParentsHeadIndexAndVersion h node v = Some (Inr h')"
  shows "keeps_match h h' \<and> (\<forall>r. h' r \<noteq> None \<longrightarrow> h r \<noteq> None)"
proof -
  from resetParents_climbs[OF assms] obtain k where k: "climbs h node k" by blast
  note res = resetParents_result[OF k assms]
  have "h' r = Some (MatchNode m)" if "h r = Some (MatchNode m)" for r m
  proof (cases "proper_ancestor h node r")
    case True
    then obtain c n where "on_spine h node c" "h c = Some n" "parentNode n = Some r"
      unfolding proper_ancestor_def by blast
    with res that have "isParentNode (MatchNode m)" by blast
    then show ?thesis by simp
  next
    case False
    with res that show ?thesis by simp
  qed
  moreover have "h r \<noteq> None" if "h' r \<noteq> None" for r
    using res that same_linksD2[of h h' r] by (cases "h r") auto
  ultimately show ?thesis by (simp add: keeps_match_def)
qed

lemma quiet_heap:
  "keeps_match (heap s) h \<Longrightarrow> (\<forall>r. h r \<noteq> None \<longrightarrow> heap s r \<noteq> None) \<Longrightarrow> quiet vo s (s\<lparr>heap := h\<rparr>)"
  by (auto simp: quiet_def alloc_ok_def)

lemma quiet_store:
  "quiet vo s (s\<lparr>parser_version := a, store_version := b\<rparr>)"
  "quiet vo s (s\<lparr>restChances := c\<rparr>)"
  "quiet vo s (s\<lparr>scanner := setIndex i (scanner s)\<rparr>)"
  by (simp_all add: quiet_def keeps_match_def alloc_ok_def setIndex_def)

lemma tryChances_quiet:
  "(tryChances vo node s = Some (Inr (c, s')) \<longrightarrow> quiet vo s s') \<and>
   (tryChances vo node s = Some (Inl e) \<longrightarrow> \<not> budget_error e)"
proof (cases "restChances s = []")
  case True
  then show ?thesis
    by (auto simp: tryChances_def getNewVersion_def Let_def quiet_def keeps_match_def alloc_ok_def)
next
  case False
  then obtain cs ch where cs: "restChances s = cs @ [ch]"
    by (metis rev_exhaust)
  show ?thesis
  proof (intro conjI impI)
    assume a: "tryChances vo node s = Some (Inl e)"
    then show "\<not> budget_error e"
      unfolding tryChances_pop[OF cs]
      by (auto simp: budget_error_def split: option.splits sum.splits if_splits
               dest: resetParents_error)
  next
    assume a: "tryChances vo node s = Some (Inr (c, s'))"
    from a[unfolded tryChances_pop[OF cs]]
    obtain n h where n: "heap s (ch_node ch) = Some n" "isParentNode n"
      and r: "resetParentsHeadIndexAndVersion
              ((heap s)(ch_node ch \<mapsto> stamp (parser_version s + 1) (ch_headIndex ch) n))
              (ch_node ch) (parser_version s + 1) = Some (Inr h)"
      and s': "s' = s\<lparr>parser_version := parser_version s + 1,
                    store_version := parser_version s + 1, restChances := cs,
                    scanner := setIndex (ch_tokenIndex ch) (scanner s), heap := h\<rparr>"
      by (auto split: option.splits sum.splits if_splits)
    let ?h1 = "(heap s)(ch_node ch \<mapsto> stamp (parser_version s + 1) (ch_headIndex ch) n)"
    have k1: "keeps_match (heap s) ?h1" using n by (auto simp: keeps_match_def)
    from resetParents_keeps[OF r] have k2: "keeps_match ?h1 h" "\<And>r. h r \<noteq> None \<Longrightarrow> ?h1 r \<noteq> None"
      by blast+
    have "keeps_match (heap s) h" using k1 k2(1) by (rule keeps_match_trans)
    moreover have "h r \<noteq> None \<longrightarrow> heap s r \<noteq> None" for r using k2(2)[of r] n by (auto split: if_splits)
    ultimately show "quiet vo s s'"
      unfolding s' by (auto simp: quiet_def alloc_ok_def setIndex_def)
  qed
qed

lemma quiet_resetHeadByVersion: "quiet vo s (resetHeadByVersion node s)"
  by (simp add: resetHeadByVersion_def quiet_update_node)

lemma visiter_ChainNode_quiet:
  "(visiter_ChainNode vo node s = Some (Inr (c, s')) \<longrightarrow> quiet vo s s') \<and>
   (visiter_ChainNode vo node s = Some (Inl e) \<longrightarrow> \<not> budget_error e)"
proof -
  define s1 where "s1 = resetHeadByVersion node s"
  have q1: "quiet vo s s1" unfolding s1_def by (rule quiet_resetHeadByVersion)
  have u: "quiet vo s (update_node node f s1)" if "fixes_match f" for f
    using q1 quiet_update_node[OF that] by (rule quiet_trans)
  have t1: "quiet vo s s'" if "tryChances vo node (update_node node f s1) = Some (Inr (c, s'))"
    "fixes_match f" for f
    using u[OF that(2)] tryChances_quiet[of vo node "update_node node f s1" c s'] that(1)
    by (auto intro: quiet_trans)
  have t2: "\<not> budget_error e" if "tryChances vo node x = Some (Inl e)" for x
    using tryChances_quiet[of vo node x c s' e] that by simp
  show ?thesis
    unfolding visiter_ChainNode_def Let_def s1_def[symmetric]
    using q1 u[of "set_headIndex i" for i] t1[of "set_headIndex i" for i] t2
    by (auto simp: budget_error_def split: option.splits node.splits if_splits)
qed

lemma based_refl [simp]: "based s s"
  by (simp add: based_def keeps_match_def)

lemma based_trans: "based s s1 \<Longrightarrow> based s1 s2 \<Longrightarrow> based s s2"
  unfolding based_def using keeps_match_trans by auto

lemma closure_same_refl [simp]: "closure_same s s"
  by (simp add: closure_same_def)

lemma closure_same_trans: "closure_same s s1 \<Longrightarrow> closure_same s1 s2 \<Longrightarrow> closure_same s s2"
  by (simp add: closure_same_def)

lemma tracker_le_refl [simp]: "tracker_le s s"
  by (simp add: tracker_le_def split: option.splits)

lemma tracker_le_trans: "tracker_le s s1 \<Longrightarrow> tracker_le s1 s2 \<Longrightarrow> tracker_le s s2"
  by (auto simp: tracker_le_def split: option.splits)

lemma quiet_based: "quiet vo s s' \<Longrightarrow> based s s'"
  by (auto simp: quiet_def based_def nm_inv_def keeps_match_def)

lemma quiet_closure_same: "quiet vo s s' \<Longrightarrow> \<not> onFail vo \<Longrightarrow> closure_same s s'"
  by (auto simp: quiet_def closure_same_def)

lemma quiet_tracker_le: "quiet vo s s' \<Longrightarrow> tracker_le s s'"
  by (auto simp: quiet_def tracker_le_def split: option.splits)

lemma quiet_success: "quiet vo s s' \<Longrightarrow> \<not> success s \<Longrightarrow> \<not> success s'"
  by (auto simp: quiet_def)

lemma visiter_TreeNode_quiet:
  "(visiter_TreeNode i node s = Some (Inr (c, s')) \<longrightarrow> quiet vo s s') \<and>
   (visiter_TreeNode i node s = Some (Inl e) \<longrightarrow> \<not> budget_error e)"
proof -
  define s1 where "s1 = resetHeadByVersion node s"
  have q1: "quiet vo s s1" unfolding s1_def by (rule quiet_resetHeadByVersion)
  have q2: "quiet vo s (s1\<lparr>restChances := cs\<rparr>)" for cs
    using q1 quiet_store(2) by (rule quiet_trans)
  have u1: "quiet vo s (update_node node f s1)" if "fixes_match f" for f
    using q1 quiet_update_node[OF that] by (rule quiet_trans)
  have u2: "quiet vo s (update_node node f (s1\<lparr>restChances := cs\<rparr>))" if "fixes_match f" for f cs
    using q2 quiet_update_node[OF that] by (rule quiet_trans)
  show ?thesis
    unfolding visiter_TreeNode_def Let_def s1_def[symmetric]
    using q1 q2 u1[of "set_headIndex i" for i] u2[of "set_headIndex i" for i]
    by (auto simp: budget_error_def split: option.splits node.splits if_splits)
qed

lemma visiter_FunctionNode_quiet:
  "(visiter_FunctionNode g f s = Some (Inr (c, s')) \<longrightarrow> quiet vo s s') \<and>
   (visiter_FunctionNode g f s = Some (Inl e) \<longrightarrow> \<not> budget_error e)"
proof -
  have r: "quiet vo s s1" if "functionNode_run g f s = Some (Inr (r, s1))" for r s1
    using functionNode_run_graph_step[of g f s r s1] that by (simp add: graph_step_quiet)
  have u: "quiet vo s (update_node p h s1)"
    if "functionNode_run g f s = Some (Inr (r, s1))" "fixes_match h" for r s1 p h
    using r[OF that(1)] quiet_update_node[OF that(2)] by (rule quiet_trans)
  have e: "\<not> budget_error e" if "functionNode_run g f s = Some (Inl e)"
    using functionNode_run_graph_step[of g f s _ _ e] that by simp
  show ?thesis
    unfolding visiter_FunctionNode_def
    using u[of _ _ "set_childs cs" for cs] e
    by (auto simp: budget_error_def split: option.splits sum.splits if_splits)
qed

lemma run_match_tokens: "sc_tokens (snd (run_match f sc b)) = sc_tokens sc"
  by (auto simp: run_match_def matchToken_def sc_next_def split: match_function.splits option.splits)

lemma based_fields:
  "heap s1 = heap s \<Longrightarrow> nextRef s1 = nextRef s \<Longrightarrow> rootChainNode s1 = rootChainNode s \<Longrightarrow>
   sc_tokens (scanner s1) = sc_tokens (scanner s) \<Longrightarrow> cursorPrevToken s1 = cursorPrevToken s \<Longrightarrow>
   nextMatchNodes s1 = nextMatchNodes s \<Longrightarrow> based s s1"
  by (simp add: based_def alloc_ok_def keeps_match_def nm_inv_def)

lemma parser_onMatchNode_frame:
  "(parser_onMatchNode vo node m s = Some (Inr (c, s')) \<longrightarrow>
      based s s' \<and> tracker_le s s' \<and> (success s' \<longrightarrow> success s)) \<and>
   (parser_onMatchNode vo node m s = Some (Inl e) \<longrightarrow> \<not> budget_error e)"
proof -
  obtain mr sc where rm: "run_match (mn_matchFunction m) (scanner s) True = (mr, sc)"
    by (cases "run_match (mn_matchFunction m) (scanner s) True")
  have tk: "sc_tokens sc = sc_tokens (scanner s)"
    using run_match_tokens[of "mn_matchFunction m" "scanner s" True] rm by simp
  define s1 where "s1 = s\<lparr>scanner := sc\<rparr>"
  have b1: "based s s1" unfolding s1_def by (rule based_fields) (simp_all add: tk)
  have t1: "tracker_le s s1" "success s1 = success s"
    by (simp_all add: s1_def tracker_le_def split: option.splits)
  have tc: "based s s' \<and> tracker_le s s' \<and> (success s' \<longrightarrow> success s)"
    if "tryChances vo node s1 = Some (Inr (c, s'))"
  proof -
    from tryChances_quiet[of vo node s1 c s'] that have q: "quiet vo s1 s'" by simp
    from based_trans[OF b1 quiet_based[OF q]] tracker_le_trans[OF t1(1) quiet_tracker_le[OF q]]
      q t1(2)
    show ?thesis by (auto simp: quiet_def)
  qed
  have te: "\<not> budget_error e" if "tryChances vo node s1 = Some (Inl e)"
    using tryChances_quiet[of vo node s1 c s' e] that by simp
  have m1: "based s (s1\<lparr>lastMatchUnderShortestRestToken := x\<rparr>)"
       "based s (s1\<lparr>cursorPrevNodes := y\<rparr>)"
       "based s (s1\<lparr>lastMatchUnderShortestRestToken := x, cursorPrevNodes := y\<rparr>)" for x y
    by (rule based_fields; simp add: s1_def tk)+
  show ?thesis
    unfolding parser_onMatchNode_def rm Let_def prod.case s1_def[symmetric]
    using tc te b1 m1 t1
    by (auto simp: tracker_le_def s1_def split: option.splits if_splits)
qed

lemma probe_onMatchNode_frame:
  assumes "heap s node = Some (MatchNode m)"
  shows "(probe_onMatchNode vo node m s = Some (Inr (c, s')) \<longrightarrow>
      based s s' \<and> tracker_le s s' \<and> (success s' \<longrightarrow> success s) \<and>
      (\<not> onFail vo \<longrightarrow> closure_same s s')) \<and>
   (probe_onMatchNode vo node m s = Some (Inl e) \<longrightarrow> \<not> budget_error e)"
proof -
  define s1 where "s1 = s\<lparr>nextMatchNodes := nextMatchNodes s @ [node]\<rparr>"
  have b1: "based s s1" if "\<not> loose_true (mn_matching m)"
    using assms that by (auto simp: based_def s1_def alloc_ok_def keeps_match_def nm_inv_def)
  have c1: "closure_same s s1" "tracker_le s s1" "success s1 = success s"
    by (simp_all add: closure_same_def s1_def tracker_le_def split: option.splits)
  have tc: "based s s' \<and> tracker_le s s' \<and> (success s' \<longrightarrow> success s) \<and>
            (\<not> onFail vo \<longrightarrow> closure_same s s')"
    if "tryChances vo node s1 = Some (Inr (c, s'))" "\<not> loose_true (mn_matching m)"
  proof -
    from tryChances_quiet[of vo node s1 c s'] that have q: "quiet vo s1 s'" by simp
    from based_trans[OF b1[OF that(2)] quiet_based[OF q]] quiet_closure_same[OF q] c1
      tracker_le_trans[OF c1(2) quiet_tracker_le[OF q]] quiet_success[OF q]
    show ?thesis by (auto intro: closure_same_trans)
  qed
  have te: "\<not> budget_error e" if "tryChances vo node s1 = Some (Inl e)"
    using tryChances_quiet[of vo node s1 c s' e] that by simp
  show ?thesis
    unfolding probe_onMatchNode_def s1_def[symmetric]
    using tc te by (auto simp: loose_true_def)
qed

lemma visiterNextNode_unhooked:
  "visiterNextNode vo node a s =
     (case (if onVisiterNextNode vo then parser_onVisiterNextNode s else Inr s) of
        Inl e \<Rightarrow> Some (Inl e)
      | Inr s1 \<Rightarrow> visiterNextNode (vo\<lparr>onVisiterNextNode := False\<rparr>) node a s1)"
  by (simp add: visiterNextNode_def Let_def split: sum.splits option.splits node.splits)

lemma quiet_chain_update:
  "heap s p = Some (ChainNode c) \<Longrightarrow> quiet vo s (s\<lparr>heap := (heap s)(p \<mapsto> ChainNode c2)\<rparr>)"
  by (rule quiet_heap) (auto simp: keeps_match_def)

lemma visiterNextNode_body:
  assumes "\<not> onVisiterNextNode vo"
  shows "(visiterNextNode vo node a s = Some (Inr (c, s')) \<longrightarrow>
            based s s' \<and> tracker_le s s' \<and>
            (\<not> onFail vo \<longrightarrow> \<not> onSuccess vo \<longrightarrow> closure_same s s') \<and>
            (\<not> success s \<longrightarrow>
               (success s' \<longleftrightarrow> onSuccess vo \<and> accepts (CVisiterNextNode node a) s) \<and>
               (success s' \<longrightarrow> c = CReturn \<and> scanner s' = scanner s))) \<and>
         (visiterNextNode vo node a s = Some (Inl e) \<longrightarrow> \<not> budget_error e)"
proof (cases "heap s node")
  case None
  with assms show ?thesis by (simp add: visiterNextNode_def budget_error_def)
next
  case (Some n)
  show ?thesis
  proof (cases "parentNode n")
    case None
    show ?thesis
    proof (cases "isEnd (scanner s)")
      case True
      have b: "based s (s\<lparr>success := True, result_ast := x\<rparr>)" for x
        by (rule based_fields) simp_all
      from assms Some None True b show ?thesis
        by (auto simp: visiterNextNode_def parser_onSuccess_def accepts_def budget_error_def
                       tracker_le_def closure_same_def
                 split: option.splits node.splits sum.splits)
    next
      case False
      have tc: "based s s' \<and> tracker_le s s' \<and> (\<not> onFail vo \<longrightarrow> closure_same s s') \<and>
                (\<not> success s \<longrightarrow> \<not> success s')"
        if "tryChances vo node s = Some (Inr (c, s'))"
      proof -
        from tryChances_quiet[of vo node s c s'] that have q: "quiet vo s s'" by simp
        then show ?thesis
          using quiet_based quiet_tracker_le quiet_closure_same quiet_success by blast
      qed
      have te: "\<not> budget_error e" if "tryChances vo node s = Some (Inl e)"
        using tryChances_quiet[of vo node s c s' e] that by simp
      from assms Some None False tc te show ?thesis
        by (auto simp: visiterNextNode_def accepts_def)
    qed
  next
    case p: (Some p)
    show ?thesis
    proof (cases "heap s p")
      case None
      with assms Some p show ?thesis by (simp add: visiterNextNode_def budget_error_def)
    next
      case pn: (Some pn)
      show ?thesis
      proof (cases pn)
        case (ChainNode ch)
        have q: "quiet vo s (s\<lparr>heap := (heap s)(p \<mapsto> ChainNode c2)\<rparr>)" for c2
          using pn ChainNode quiet_chain_update by simp
        have q2: "quiet vo s (s\<lparr>heap := (heap s)(p \<mapsto> ChainNode c2), restChances := cs\<rparr>)" for c2 cs
          using q[of c2] by (auto simp: quiet_def alloc_ok_def)
        have all: "based s x \<and> tracker_le s x \<and> (\<not> onFail vo \<longrightarrow> closure_same s x) \<and>
                   (\<not> success s \<longrightarrow> \<not> success x)" if "quiet vo s x" for x
          using that quiet_based quiet_tracker_le quiet_closure_same quiet_success by blast
        from assms Some p pn ChainNode all[OF q] all[OF q2] show ?thesis
          by (auto simp: visiterNextNode_def Let_def accepts_def)
      next
        case (TreeNode tr)
        with assms Some p pn show ?thesis
          by (auto simp: visiterNextNode_def accepts_def)
      qed (use assms Some p pn in \<open>simp_all add: visiterNextNode_def budget_error_def\<close>)
    qed
  qed
qed

lemma parser_onVisiterNextNode_cases:
  "parser_onVisiterNextNode s =
     (if MAX_VISITER_CALL < callParentCount s + 1 then Inl CallParentExceeded
      else Inr (s\<lparr>callParentCount := callParentCount s + 1\<rparr>))"
  by (simp add: parser_onVisiterNextNode_def Let_def)

lemma parser_onCallVisiter_cases:
  "parser_onCallVisiter s =
     (if MAX_VISITER_CALL < callVisiterCount s + 1 then Inl CallVisiterExceeded
      else Inr (s\<lparr>callVisiterCount := callVisiterCount s + 1\<rparr>))"
  by (simp add: parser_onCallVisiter_def Let_def)

lemma counter_steps:
  "based s (s\<lparr>callParentCount := k\<rparr>)" "tracker_le s (s\<lparr>callParentCount := k\<rparr>)"
  "based s (s\<lparr>callVisiterCount := k\<rparr>)" "tracker_le s (s\<lparr>callVisiterCount := k\<rparr>)"
  "accepts c (s\<lparr>callParentCount := k\<rparr>) = accepts c s"
  by (simp_all add: based_fields tracker_le_def accepts_def split: option.splits control.splits)

lemma visiterNextNode_frame:
  "(visiterNextNode vo node a s = Some (Inr (c, s')) \<longrightarrow>
      based s s' \<and> tracker_le s s' \<and>
      (\<not> onVisiterNextNode vo \<longrightarrow> \<not> onFail vo \<longrightarrow> \<not> onSuccess vo \<longrightarrow> closure_same s s') \<and>
      (\<not> success s \<longrightarrow>
         (success s' \<longleftrightarrow> onSuccess vo \<and> accepts (CVisiterNextNode node a) s) \<and>
         (success s' \<longrightarrow> c = CReturn \<and> scanner s' = scanner s))) \<and>
   (visiterNextNode vo node a s = Some (Inl e) \<longrightarrow>
      e \<noteq> CallVisiterExceeded \<and>
      (e = CallParentExceeded \<longleftrightarrow> onVisiterNextNode vo \<and> MAX_VISITER_CALL < callParentCount s + 1))"
proof (cases "onVisiterNextNode vo")
  case False
  then have "vo\<lparr>onVisiterNextNode := False\<rparr> = vo" by simp
  with visiterNextNode_body[of vo node a s c s' e] False show ?thesis
    by (auto simp: budget_error_def)
next
  case True
  show ?thesis
  proof (cases "MAX_VISITER_CALL < callParentCount s + 1")
    case over: True
    with True show ?thesis
      by (subst (1 2) visiterNextNode_unhooked) (simp add: parser_onVisiterNextNode_cases)
  next
    case False
    define s1 where "s1 = s\<lparr>callParentCount := callParentCount s + 1\<rparr>"
    have eq: "visiterNextNode vo node a s = visiterNextNode (vo\<lparr>onVisiterNextNode := False\<rparr>) node a s1"
      using True False
      by (subst visiterNextNode_unhooked) (simp add: parser_onVisiterNextNode_cases s1_def)
    have s1: "based s s1" "tracker_le s s1" "success s1 = success s" "scanner s1 = scanner s"
      "accepts (CVisiterNextNode node a) s1 = accepts (CVisiterNextNode node a) s"
      by (simp_all add: s1_def counter_steps)
    from visiterNextNode_body[of "vo\<lparr>onVisiterNextNode := False\<rparr>" node a s1 c s' e] s1 True False
    show ?thesis
      unfolding eq
      by (auto simp: budget_error_def intro: based_trans tracker_le_trans)
  qed
qed

lemma visiter_body:
  assumes "\<not> onCallVisiter vo"
  shows "(visiter g vo node s = Some (Inr (c, s')) \<longrightarrow>
            based s s' \<and> tracker_le s s' \<and> (\<not> success s \<longrightarrow> \<not> success s') \<and>
            (\<not> onFail vo \<longrightarrow> onMatchNode vo = ProbeOnMatchNode \<longrightarrow> closure_same s s')) \<and>
         (visiter g vo node s = Some (Inl e) \<longrightarrow> \<not> budget_error e)"
proof (cases "heap s node")
  case None
  with assms show ?thesis by (simp add: visiter_def budget_error_def)
next
  case (Some n)
  have all: "based s x \<and> tracker_le s x \<and> (\<not> onFail vo \<longrightarrow> closure_same s x) \<and>
             (\<not> success s \<longrightarrow> \<not> success x)" if "quiet vo s x" for x
    using that quiet_based quiet_tracker_le quiet_closure_same quiet_success by blast
  show ?thesis
  proof (cases n)
    case (MatchNode m)
    show ?thesis
    proof (cases "onMatchNode vo")
      case ParserOnMatchNode
      with assms Some MatchNode parser_onMatchNode_frame[of vo node m s c s' e] show ?thesis
        by (auto simp: visiter_def)
    next
      case ProbeOnMatchNode
      with assms Some MatchNode probe_onMatchNode_frame[of s node m vo c s' e]
      show ?thesis
        by (auto simp: visiter_def)
    qed
  next
    case (FunctionNode f)
    with assms Some visiter_FunctionNode_quiet[of g f s c s' vo e] all[of s'] show ?thesis
      by (auto simp: visiter_def)
  next
    case (TreeNode t)
    with assms Some visiter_TreeNode_quiet[of "getIndex (scanner s)" node s c s' vo e] all[of s']
    show ?thesis by (auto simp: visiter_def)
  next
    case (ChainNode ch)
    with assms Some visiter_ChainNode_quiet[of vo node s c s' e] all[of s'] show ?thesis
      by (auto simp: visiter_def)
  qed
qed

lemma visiter_frame:
  "(visiter g vo node s = Some (Inr (c, s')) \<longrightarrow>
      based s s' \<and> tracker_le s s' \<and> (\<not> success s \<longrightarrow> \<not> success s') \<and>
      (\<not> onCallVisiter vo \<longrightarrow> \<not> onFail vo \<longrightarrow> onMatchNode vo = ProbeOnMatchNode \<longrightarrow>
         closure_same s s')) \<and>
   (visiter g vo node s = Some (Inl e) \<longrightarrow>
      e \<noteq> CallParentExceeded \<and>
      (e = CallVisiterExceeded \<longleftrightarrow> onCallVisiter vo \<and> MAX_VISITER_CALL < callVisiterCount s + 1))"
proof (cases "onCallVisiter vo")
  case False
  then have "vo\<lparr>onCallVisiter := False\<rparr> = vo" by simp
  with visiter_body[of vo g node s c s' e] False show ?thesis
    by (auto simp: budget_error_def)
next
  case True
  show ?thesis
  proof (cases "MAX_VISITER_CALL < callVisiterCount s + 1")
    case over: True
    with True show ?thesis
      by (subst (1 2) visiter_unhooked) (simp add: parser_onCallVisiter_cases)
  next
    case False
    define s1 where "s1 = s\<lparr>callVisiterCount := callVisiterCount s + 1\<rparr>"
    have eq: "visiter g vo node s = visiter g (vo\<lparr>onCallVisiter := False\<rparr>) node s1"
      using True False
      by (subst visiter_unhooked) (simp add: parser_onCallVisiter_cases s1_def)
    have s1: "based s s1" "tracker_le s s1" "success s1 = success s"
      by (simp_all add: s1_def counter_steps)
    from visiter_body[of "vo\<lparr>onCallVisiter := False\<rparr>" g node s1 c s' e] s1 True False
    show ?thesis
      unfolding eq
      by (auto simp: budget_error_def intro: based_trans tracker_le_trans)
  qed
qed

lemma probe_like_probeOption [simp]: "probe_like probeOption"
  by (simp add: probe_like_def probeOption_def)

lemma step_frame:
  assumes "step g vo c s = Some (Inr (c', s'))"
  shows "based s s' \<and> tracker_le s s' \<and>
         (probe_like vo \<longrightarrow> closure_same s s') \<and>
         (\<not> success s \<longrightarrow>
            (success s' \<longleftrightarrow> onSuccess vo \<and> accepts c s) \<and>
            (success s' \<longrightarrow> c' = CReturn \<and> scanner s' = scanner s))"
proof (cases c)
  case (CVisiter node)
  with assms visiter_frame[of g vo node s c' s'] show ?thesis
    by (auto simp: step_def accepts_def probe_like_def)
next
  case (CVisiterNextNode node a)
  with assms visiterNextNode_frame[of vo node a s c' s'] show ?thesis
    by (auto simp: step_def probe_like_def)
next
  case CReturn
  with assms show ?thesis by (auto simp: step_def accepts_def)
qed

lemma run_CReturn [simp]: "run g vo CReturn s = Some (Inr s)"
  by (subst run.simps) simp

lemma run_step:
  "c \<noteq> CReturn \<Longrightarrow> run g vo c s =
     (case step g vo c s of
        None \<Rightarrow> None
      | Some (Inl e) \<Rightarrow> Some (Inl e)
      | Some (Inr (c1, s1)) \<Rightarrow> run g vo c1 s1)"
  by (subst run.simps) simp

lemma run_frame_aux:
  assumes a: "run g vo c s = Some y"
  shows "\<forall>s'. y = Inr s' \<longrightarrow>
           based s s' \<and> tracker_le s s' \<and> (probe_like vo \<longrightarrow> closure_same s s')"
proof (induction rule: run.raw_induct[OF _ a])
  case (1 run' g vo c s y)
  show ?case
  proof (intro allI impI)
    fix s' assume y: "y = Inr s'"
    show "based s s' \<and> tracker_le s s' \<and> (probe_like vo \<longrightarrow> closure_same s s')"
    proof (cases "c = CReturn")
      case True
      with 1(2) y show ?thesis by simp
    next
      case False
      with 1(2) y obtain c1 s1 where st: "step g vo c s = Some (Inr (c1, s1))"
        and r: "run' g vo c1 s1 = Some (Inr s')"
        by (auto split: option.splits sum.splits)
      from 1(1)[OF r] step_frame[OF st] show ?thesis
        by (auto intro: based_trans tracker_le_trans closure_same_trans)
    qed
  qed
qed

lemma run_frame:
  "run g vo c s = Some (Inr s') \<Longrightarrow>
     based s s' \<and> tracker_le s s' \<and> (probe_like vo \<longrightarrow> closure_same s s')"
  using run_frame_aux by blast

lemma reaches_front:
  assumes "reaches g vo (c1, s1) x" and "c \<noteq> CReturn" and "step g vo c s = Some (Inr (c1, s1))"
  shows "reaches g vo (c, s) x"
  using assms
proof (induction rule: reaches.induct)
  case here
  from reaches.after[OF reaches.here here(1,2)] show ?case .
next
  case (after c2 s2 c3 s3)
  from after.IH[OF after.prems] after.hyps(2,3) show ?case by (rule reaches.after)
qed

lemma run_reaches_aux:
  assumes a: "run g vo c s = Some y"
  shows "\<forall>s'. y = Inr s' \<longrightarrow> reaches g vo (c, s) (CReturn, s')"
proof (induction rule: run.raw_induct[OF _ a])
  case (1 run' g vo c s y)
  show ?case
  proof (intro allI impI)
    fix s' assume y: "y = Inr s'"
    show "reaches g vo (c, s) (CReturn, s')"
    proof (cases "c = CReturn")
      case True
      with 1(2) y show ?thesis by (simp add: reaches.here)
    next
      case False
      with 1(2) y obtain c1 s1 where st: "step g vo c s = Some (Inr (c1, s1))"
        and r: "run' g vo c1 s1 = Some (Inr s')"
        by (auto split: option.splits sum.splits)
      from 1(1)[OF r] have "reaches g vo (c1, s1) (CReturn, s')" by simp
      then show ?thesis using False st by (rule reaches_front)
    qed
  qed
qed

lemma run_reaches: "run g vo c s = Some (Inr s') \<Longrightarrow> reaches g vo (c, s) (CReturn, s')"
  using run_reaches_aux by blast

lemma reaches_run:
  "reaches g vo cs cs' \<Longrightarrow> run g vo (fst cs) (snd cs) = run g vo (fst cs') (snd cs')"
proof (induction rule: reaches.induct)
  case here
  show ?case by simp
next
  case (after c1 s1 c2 s2)
  then show ?case by (simp add: run_step)
qed

lemma reaches_success:
  assumes "reaches g vo (c, s) (c', s')" and "\<not> success s"
  shows "success s' \<longrightarrow> c' = CReturn \<and> isEnd (scanner s') \<and> onSuccess vo \<and>
           (\<exists>c1 s1. reaches g vo (c, s) (c1, s1) \<and> accepts c1 s1)"
  using assms
proof (induction "(c', s')" arbitrary: c' s' rule: reaches.induct)
  case here
  then show ?case by simp
next
  case (after c1 s1 c2 s2)
  from after.hyps(2)[OF after.prems] after.hyps(3) have ns: "\<not> success s1" by auto
  have e: "isEnd (scanner s1)" if "accepts c1 s1"
    using that by (auto simp: accepts_def split: control.splits option.splits)
  from step_frame[OF after.hyps(4)] ns e after.hyps(1) show ?case by auto
qed

lemma found_ok_keeps: "found_ok s xs \<Longrightarrow> keeps_match (heap s) (heap s') \<Longrightarrow> found_ok s' xs"
  by (auto simp: found_ok_def keeps_match_def)

lemma found_ok_append: "found_ok s xs \<Longrightarrow> found_ok s ys \<Longrightarrow> found_ok s (xs @ ys)"
  by (auto simp: found_ok_def)

lemma found_ok_subset: "found_ok s xs \<Longrightarrow> set ys \<subseteq> set xs \<Longrightarrow> found_ok s ys"
  by (auto simp: found_ok_def)

lemma probed_refl [simp]: "probed s s"
  by (simp add: probed_def)

lemma probed_trans: "probed s s1 \<Longrightarrow> probed s1 s2 \<Longrightarrow> probed s s2"
  by (auto simp: probed_def intro: based_trans closure_same_trans)

lemma probed_keeps: "probed s s' \<Longrightarrow> alloc_ok s \<Longrightarrow> alloc_ok s' \<and> keeps_match (heap s) (heap s')"
  by (simp add: probed_def based_def)

lemma findNextMatchNodes_body:
  assumes n: "heap s node = Some n"
    and r: "resetParentsHeadIndexAndVersion (heap s) node (parser_version s + 1) = Some (Inr h)"
    and v: "run g probeOption (CVisiter start)
              (s\<lparr>parser_version := parser_version s + 1, heap := h, nextMatchNodes := [],
                 scanner := \<lparr>sc_tokens = [], sc_index = 0\<rparr>,
                 store_version := parser_version s + 1, restChances := []\<rparr>) = Some (Inr s2)"
  shows "probed s (s2\<lparr>scanner := scanner s, store_version := store_version s,
                      restChances := restChances s, nextMatchNodes := nextMatchNodes s\<rparr>) \<and>
         (alloc_ok s \<longrightarrow> found_ok s2 (nextMatchNodes s2))"
proof -
  let ?st = "s\<lparr>parser_version := parser_version s + 1, heap := h, nextMatchNodes := [],
                 scanner := \<lparr>sc_tokens = [], sc_index = 0\<rparr>,
                 store_version := parser_version s + 1, restChances := []\<rparr>"
  from resetParents_keeps[OF r] have k: "keeps_match (heap s) h" "\<And>r. h r \<noteq> None \<Longrightarrow> heap s r \<noteq> None"
    by blast+
  from run_frame[OF v] have b: "based ?st s2" and c: "closure_same ?st s2" by simp_all
  have a_st: "alloc_ok ?st" if "alloc_ok s" using that k(2) by (auto simp: alloc_ok_def)
  have nm_st: "nm_inv ?st" by (simp add: nm_inv_def)
  from b a_st nm_st have s2: "alloc_ok s2" "keeps_match h (heap s2)" "nm_inv s2" if "alloc_ok s"
    using that by (auto simp: based_def)
  have f: "found_ok s2 (nextMatchNodes s2)" if "alloc_ok s"
    using s2(3)[OF that] by (simp add: found_ok_def nm_inv_def)
  have kk: "keeps_match (heap s) (heap s2)" if "alloc_ok s"
    using k(1) s2(2)[OF that] by (rule keeps_match_trans)
  have "based s (s2\<lparr>scanner := scanner s, store_version := store_version s,
                      restChances := restChances s, nextMatchNodes := nextMatchNodes s\<rparr>)"
    using b s2(1) kk
    by (auto simp: based_def alloc_ok_def nm_inv_def keeps_match_def)
  moreover have "closure_same s (s2\<lparr>scanner := scanner s, store_version := store_version s,
                      restChances := restChances s, nextMatchNodes := nextMatchNodes s\<rparr>)"
    using c by (simp add: closure_same_def)
  ultimately show ?thesis using f by (simp add: probed_def)
qed

lemma findNextMatchNodes_frame_aux:
  assumes a: "findNextMatchNodes g node s = Some y"
  shows "\<forall>found s'. y = Inr (found, s') \<longrightarrow> probed s s' \<and> (alloc_ok s \<longrightarrow> found_ok s' found)"
proof (induction rule: findNextMatchNodes.raw_induct[OF _ a])
  case (1 fnm g node s y)
  show ?case
  proof (intro allI impI)
    fix found s' assume y: "y = Inr (found, s')"
    from 1(2) y obtain n where n: "heap s node = Some n" by (auto split: option.splits)
    show "probed s s' \<and> (alloc_ok s \<longrightarrow> found_ok s' found)"
    proof (cases "case parentNode n of None \<Rightarrow> False
              | Some p \<Rightarrow> (case heap s p of Some (TreeNode t) \<Rightarrow> True | _ \<Rightarrow> False)")
      case True
      with 1(2) y n obtain p where "fnm g p s = Some (Inr (found, s'))"
        by (auto split: option.splits)
      from 1(1)[OF this] show ?thesis by simp
    next
      case False
      from 1(2) y n False obtain h s2 where
        r: "resetParentsHeadIndexAndVersion (heap s) node (parser_version s + 1) = Some (Inr h)"
        and v: "run g probeOption (CVisiter (case parentNode n of Some p \<Rightarrow> p | None \<Rightarrow> node))
              (s\<lparr>parser_version := parser_version s + 1, heap := h, nextMatchNodes := [],
                 scanner := \<lparr>sc_tokens = [], sc_index = 0\<rparr>,
                 store_version := parser_version s + 1, restChances := []\<rparr>) = Some (Inr s2)"
        and f: "found = nextMatchNodes s2"
        and s': "s' = s2\<lparr>scanner := scanner s, store_version := store_version s,
                      restChances := restChances s, nextMatchNodes := nextMatchNodes s\<rparr>"
        by (auto simp: getNewVersion_def newVisiter_def Let_def split: option.splits sum.splits)
      from findNextMatchNodes_body[OF n r v] show ?thesis
        unfolding s' f by (auto simp: found_ok_def)
    qed
  qed
qed

lemma findNextMatchNodes_frame:
  "findNextMatchNodes g node s = Some (Inr (found, s')) \<Longrightarrow>
     probed s s' \<and> (alloc_ok s \<longrightarrow> found_ok s' found)"
  using findNextMatchNodes_frame_aux by blast

lemma nextMatchNodes_reduce_frame:
  "nextMatchNodes_reduce g nodes all s = Some (Inr (found, s')) \<Longrightarrow>
     probed s s' \<and> (alloc_ok s \<longrightarrow> found_ok s all \<longrightarrow> found_ok s' found)"
proof (induction nodes arbitrary: all s)
  case Nil
  then show ?case by simp
next
  case (Cons n nodes)
  from Cons.prems obtain f1 s1 where f: "findNextMatchNodes g n s = Some (Inr (f1, s1))"
    and r: "nextMatchNodes_reduce g nodes (all @ f1) s1 = Some (Inr (found, s'))"
    by (auto split: option.splits sum.splits)
  from findNextMatchNodes_frame[OF f] have p1: "probed s s1" and f1: "alloc_ok s \<longrightarrow> found_ok s1 f1"
    by simp_all
  from Cons.IH[OF r] have p2: "probed s1 s'"
    and f2: "alloc_ok s1 \<longrightarrow> found_ok s1 (all @ f1) \<longrightarrow> found_ok s' found" by simp_all
  from p1 p2 have "probed s s'" by (rule probed_trans)
  moreover have "found_ok s' found" if "alloc_ok s" "found_ok s all"
  proof -
    from probed_keeps[OF p1 that(1)] have "alloc_ok s1" "keeps_match (heap s) (heap s1)" by simp_all
    with that f1 f2 show ?thesis
      by (auto intro: found_ok_append found_ok_keeps)
  qed
  ultimately show ?case by simp
qed

lemma nextMatchNodes_filter_frame:
  "nextMatchNodes_filter g v nodes s = Some (Inr (kept, s')) \<Longrightarrow>
     probed s s' \<and> set kept \<subseteq> set nodes"
proof (induction nodes arbitrary: kept s)
  case Nil
  then show ?case by simp
next
  case (Cons n nodes)
  from Cons.prems obtain f1 s1 k1 where f: "findNextMatchNodes g n s = Some (Inr (f1, s1))"
    and r: "nextMatchNodes_filter g v nodes s1 = Some (Inr (k1, s'))"
    and k: "kept = n # k1 \<or> kept = k1"
    by (auto split: option.splits sum.splits if_splits)
  from findNextMatchNodes_frame[OF f] have p1: "probed s s1" by simp
  from Cons.IH[OF r] have p2: "probed s1 s'" "set k1 \<subseteq> set nodes" by simp_all
  from p1 p2(1) have "probed s s'" by (rule probed_trans)
  with p2(2) k show ?case by auto
qed

lemma set_uniqBy: "set (uniqBy f xs) \<subseteq> set xs"
proof (induction f xs rule: uniqBy.induct)
  case (1 f)
  then show ?case by simp
next
  case (2 f x xs)
  then show ?case by auto
qed

lemma parse_nextMatchNodes_frame:
  assumes "parse_nextMatchNodes g tokens cursorIndex s = Some (Inr (nodes, s'))"
  shows "based s s' \<and> success s' = success s \<and> scanner s' = scanner s \<and>
         lastMatchUnderShortestRestToken s' = lastMatchUnderShortestRestToken s \<and>
         callVisiterCount s' = callVisiterCount s \<and>
         (alloc_ok s \<longrightarrow> found_ok s' nodes)"
proof -
  define s3 where "s3 = s\<lparr>cursorPrevNodes := uniq (cursorPrevNodes s)\<rparr>"
  have b3: "based s s3" unfolding s3_def by (rule based_fields) simp_all
  have a3: "alloc_ok s3 = alloc_ok s" by (simp add: s3_def alloc_ok_def)
  from assms obtain found s4 where
    r: "nextMatchNodes_reduce g (cursorPrevNodes s3) [] s3 = Some (Inr (found, s4))"
    and rest: "(case getNextTokenFromCharacterIndex \<lparr>sc_tokens = tokens, sc_index = 0\<rparr> cursorIndex of
                Some cursorNextToken \<Rightarrow>
                  nextMatchNodes_filter g (tok_value (tokens ! cursorNextToken))
                    (uniqBy (node_key s4) found) s4
              | None \<Rightarrow> Some (Inr (uniqBy (node_key s4) found, s4))) = Some (Inr (nodes, s'))"
    by (auto simp: parse_nextMatchNodes_def Let_def s3_def split: option.splits sum.splits)
  from nextMatchNodes_reduce_frame[OF r] have p4: "probed s3 s4"
    and f4: "alloc_ok s3 \<longrightarrow> found_ok s4 found" by (simp_all add: found_ok_def)
  have "probed s4 s' \<and> set nodes \<subseteq> set found"
  proof (cases "getNextTokenFromCharacterIndex \<lparr>sc_tokens = tokens, sc_index = 0\<rparr> cursorIndex")
    case None
    with rest show ?thesis using set_uniqBy[of "node_key s4" found] by auto
  next
    case (Some t)
    with rest nextMatchNodes_filter_frame[of g "tok_value (tokens ! t)" "uniqBy (node_key s4) found" s4 nodes s']
    show ?thesis using set_uniqBy[of "node_key s4" found] by auto
  qed
  then have p5: "probed s4 s'" and sub: "set nodes \<subseteq> set found" by simp_all
  from p4 p5 have p: "probed s3 s'" by (rule probed_trans)
  have "found_ok s' nodes" if "alloc_ok s"
  proof -
    from that a3 have "alloc_ok s3" by simp
    with f4 probed_keeps[OF p4] probed_keeps[OF p5] sub show ?thesis
      by (auto intro: found_ok_keeps found_ok_subset)
  qed
  moreover from p b3 have "based s s'" by (auto simp: probed_def intro: based_trans)
  ultimately show ?thesis using p by (auto simp: probed_def closure_same_def s3_def)
qed

lemma parse_error_of_frame:
  assumes "parse_error_of g tokens root s = Some (Inr (err, s'))"
  shows "probed s s' \<and>
         (if success s then err = None
          else (\<exists>sugg. err = Some (make_error \<lparr>sc_tokens = tokens, sc_index = 0\<rparr>
                                     (lastMatchUnderShortestRestToken s') sugg)))"
proof (cases "success s")
  case True
  with assms show ?thesis by (simp add: parse_error_of_def)
next
  case False
  with assms obtain found where
    f: "findNextMatchNodes g (case lastMatchUnderShortestRestToken s of
                      Some l \<Rightarrow> lm_matchNode l | None \<Rightarrow> root) s = Some (Inr (found, s'))"
    and e: "err = Some (make_error \<lparr>sc_tokens = tokens, sc_index = 0\<rparr>
                                   (lastMatchUnderShortestRestToken s')
                                   (uniqBy matching_key (List.map_filter (matching_of s') found)))"
    by (auto simp: parse_error_of_def split: option.splits sum.splits)
  from findNextMatchNodes_frame[OF f] e False show ?thesis by auto
qed

lemma parse_visit_run:
  "parse_visit g tokens cursorIndex root p =
     run g parserOption (CVisiter root) (parse_init tokens cursorIndex root p)"
  by (simp add: parse_visit_def parse_init_def newVisiter_def split: prod.splits)

lemma parse_init_facts:
  "\<not> success (parse_init tokens cursorIndex root p)"
  "sc_tokens (scanner (parse_init tokens cursorIndex root p)) = tokens"
  "lastMatchUnderShortestRestToken (parse_init tokens cursorIndex root p) = None"
  "alloc_ok p \<Longrightarrow> alloc_ok (parse_init tokens cursorIndex root p)"
  by (simp_all add: parse_init_def parse_start_def getNewVersion_def Let_def alloc_ok_def)

lemma createParser_phases:
  assumes "getParser g root parserMap = Some (Inr p)" and "rootChainNode p = Some rootNode"
    and "createParser g root parserMap tokens cursorIndex = Some (Inr (r, s))"
  obtains s2 nodes s5 err where
    "run g parserOption (CVisiter rootNode) (parse_init tokens cursorIndex rootNode p) = Some (Inr s2)"
    "parse_nextMatchNodes g tokens cursorIndex s2 = Some (Inr (nodes, s5))"
    "parse_error_of g tokens rootNode s5 = Some (Inr (err, s))"
    "r = \<lparr>r_success = success s, r_ast = result_ast s, r_callVisiterCount = callVisiterCount s,
          r_nextMatchings = List.map_filter (matching_of s) (rev nodes),
          r_error = err, r_tokens = tokens\<rparr>"
  using assms
  by (auto simp: createParser_def parse_visit_run parse_finish_def
           split: option.splits sum.splits)

lemma accepting_step:
  assumes "reaches g parserOption (c, s) (c1, s1)" and "\<not> success s" and "accepts c1 s1"
    and "run g parserOption c s = Some (Inr s2)"
  shows "success s2"
proof -
  from reaches_run[OF assms(1)] assms(4) have r1: "run g parserOption c1 s1 = Some (Inr s2)" by simp
  from assms(3) have nr: "c1 \<noteq> CReturn" by (auto simp: accepts_def)
  from reaches_success[OF assms(1,2)] nr have ns: "\<not> success s1" by auto
  from r1 nr obtain c2 s3 where st: "step g parserOption c1 s1 = Some (Inr (c2, s3))"
    and r2: "run g parserOption c2 s3 = Some (Inr s2)"
    by (auto simp: run_step split: option.splits sum.splits)
  from step_frame[OF st] ns assms(3) have "success s3" "c2 = CReturn"
    by (auto simp: parserOption_def)
  with r2 show ?thesis by simp
qed

text \<open>
  C1: a parse that returns reports success exactly when its traversal reaches
  \<^verbatim>\<open>visiterNextNode\<close> on a node without parent (the root) with the scanner at the end of
  the tokens; then the scanner of the parse has consumed every token. On a node without
  parent with tokens left, \<^verbatim>\<open>visiterNextNode\<close> (below its call budget) is \<^verbatim>\<open>tryChances\<close>.
\<close>
theorem parse_success_iff:
  assumes "getParser g root parserMap = Some (Inr p)" and "rootChainNode p = Some rootNode"
    and "createParser g root parserMap tokens cursorIndex = Some (Inr (r, s))"
  shows "(r_success r \<longleftrightarrow>
            (\<exists>c1 s1. reaches g parserOption
                       (CVisiter rootNode, parse_init tokens cursorIndex rootNode p) (c1, s1) \<and>
                     accepts c1 s1)) \<and>
         (r_success r \<longrightarrow> isEnd (scanner s) \<and> sc_tokens (scanner s) = tokens) \<and>
         (\<forall>node a st n. heap st node = Some n \<longrightarrow> parentNode n = None \<longrightarrow>
            \<not> isEnd (scanner st) \<longrightarrow>
            visiterNextNode parserOption node a st =
              (if MAX_VISITER_CALL < callParentCount st + 1 then Some (Inl CallParentExceeded)
               else tryChances parserOption node (st\<lparr>callParentCount := callParentCount st + 1\<rparr>)))"
proof -
  let ?s0 = "parse_init tokens cursorIndex rootNode p"
  have third: "visiterNextNode parserOption node a st =
              (if MAX_VISITER_CALL < callParentCount st + 1 then Some (Inl CallParentExceeded)
               else tryChances parserOption node (st\<lparr>callParentCount := callParentCount st + 1\<rparr>))"
    if "heap st node = Some n" "parentNode n = None" "\<not> isEnd (scanner st)" for node a st n
    using that
    by (simp add: visiterNextNode_def parser_onVisiterNextNode_cases parserOption_def)
  from createParser_phases[OF assms] obtain s2 nodes s5 err where
    run: "run g parserOption (CVisiter rootNode) ?s0 = Some (Inr s2)"
    and nm: "parse_nextMatchNodes g tokens cursorIndex s2 = Some (Inr (nodes, s5))"
    and er: "parse_error_of g tokens rootNode s5 = Some (Inr (err, s))"
    and r: "r = \<lparr>r_success = success s, r_ast = result_ast s, r_callVisiterCount = callVisiterCount s,
          r_nextMatchings = List.map_filter (matching_of s) (rev nodes),
          r_error = err, r_tokens = tokens\<rparr>"
    by blast
  from parse_nextMatchNodes_frame[OF nm] parse_error_of_frame[OF er]
  have fr: "success s = success s2" "scanner s = scanner s2"
    by (auto simp: probed_def closure_same_def)
  from run_frame[OF run] have tk: "sc_tokens (scanner s2) = tokens"
    by (simp add: based_def parse_init_facts)
  note rs = reaches_success[OF run_reaches[OF run] parse_init_facts(1)]
  have "success s2 \<longleftrightarrow>
          (\<exists>c1 s1. reaches g parserOption (CVisiter rootNode, ?s0) (c1, s1) \<and> accepts c1 s1)"
    using rs accepting_step[OF _ parse_init_facts(1) _ run] by blast
  with rs fr tk r third show ?thesis by simp
qed

theorem parse_success_iff_witness:
  "\<exists>r s. createParser expr_grammar ''root'' None a_plus_b 5 = Some (Inr (r, s)) \<and> r_success r \<and>
         isEnd (scanner s) \<and> sc_tokens (scanner s) = a_plus_b"
proof -
  obtain p where gp: "getParser expr_grammar ''root'' None = Some (Inr p)"
    and rn: "rootChainNode p = Some 0"
    by (simp add: evals expr_grammar_def)
  obtain r s where cp: "createParser expr_grammar ''root'' None a_plus_b 5 = Some (Inr (r, s))"
    and rs: "r_success r"
    by (simp add: evals expr_grammar_def a_plus_b_def)
  from parse_success_iff[OF gp rn cp] rs cp show ?thesis by simp
qed

lemma best_progress_in_single: "best_progress_in [l] l"
  unfolding best_progress_in_def by (intro exI[of _ "[]"]) simp

lemma best_progress_in_min:
  "best_progress_in ms b \<Longrightarrow> l' \<in> set ms \<Longrightarrow> lm_restTokenCount b \<le> lm_restTokenCount l'"
  unfolding best_progress_in_def by fastforce

lemma best_progress_in_keep:
  assumes "best_progress_in ms b" and "lm_restTokenCount b \<le> lm_restTokenCount l"
  shows "best_progress_in (ms @ [l]) b"
proof -
  from assms(1) obtain before after where
    m: "ms = before @ b # after"
    "\<forall>l' \<in> set before. lm_restTokenCount b < lm_restTokenCount l'"
    "\<forall>l' \<in> set after. lm_restTokenCount b \<le> lm_restTokenCount l'"
    unfolding best_progress_in_def by blast
  show ?thesis unfolding best_progress_in_def
    by (intro exI[of _ before] exI[of _ "after @ [l]"]) (use m assms(2) in auto)
qed

lemma best_progress_in_new:
  assumes "best_progress_in ms b" and "lm_restTokenCount l < lm_restTokenCount b"
  shows "best_progress_in (ms @ [l]) l"
  unfolding best_progress_in_def
  by (intro exI[of _ ms] exI[of _ "[]"]) (use best_progress_in_min[OF assms(1)] assms(2) in fastforce)

lemma best_progress_in_unique:
  assumes "best_progress_in ms a" and "best_progress_in ms b"
  shows "a = b"
proof -
  from assms(1) obtain b1 a1 where
    A: "ms = b1 @ a # a1" "\<forall>l' \<in> set b1. lm_restTokenCount a < lm_restTokenCount l'"
       "\<forall>l' \<in> set a1. lm_restTokenCount a \<le> lm_restTokenCount l'"
    unfolding best_progress_in_def by blast
  from assms(2) obtain b2 a2 where
    B: "ms = b2 @ b # a2" "\<forall>l' \<in> set b2. lm_restTokenCount b < lm_restTokenCount l'"
       "\<forall>l' \<in> set a2. lm_restTokenCount b \<le> lm_restTokenCount l'"
    unfolding best_progress_in_def by blast
  from A(1) B(1) have "b1 @ a # a1 = b2 @ b # a2" by simp
  then obtain us where
    "(b1 = b2 @ us \<and> us @ a # a1 = b # a2) \<or> (b1 @ us = b2 \<and> a # a1 = us @ b # a2)"
    unfolding append_eq_append_conv2 by blast
  then show ?thesis
  proof
    assume h: "b1 = b2 @ us \<and> us @ a # a1 = b # a2"
    show ?thesis
    proof (cases us)
      case Nil
      with h show ?thesis by simp
    next
      case (Cons u us')
      with h have "b \<in> set b1" "a \<in> set a2" by auto
      with A(2) B(3) show ?thesis by fastforce
    qed
  next
    assume h: "b1 @ us = b2 \<and> a # a1 = us @ b # a2"
    show ?thesis
    proof (cases us)
      case Nil
      with h show ?thesis by simp
    next
      case (Cons u us')
      with h have "a \<in> set b2" "b \<in> set a1" by auto
      with B(2) A(3) show ?thesis by fastforce
    qed
  qed
qed

lemma visiterNextNode_tracker:
  assumes "visiterNextNode vo node a s = Some (Inr (c, s'))"
  shows "lastMatchUnderShortestRestToken s' = lastMatchUnderShortestRestToken s"
proof -
  have t: "lastMatchUnderShortestRestToken s' = lastMatchUnderShortestRestToken x"
    if "tryChances vo node x = Some (Inr (c, s'))" for x
    using tryChances_quiet[of vo node x c s'] that by (simp add: quiet_def)
  from assms t show ?thesis
    by (auto simp: visiterNextNode_def parser_onVisiterNextNode_def parser_onSuccess_def Let_def
             split: if_splits sum.splits option.splits node.splits)
qed

lemma step_tracks:
  assumes "step g parserOption c s = Some (Inr (c', s'))"
  shows "lastMatchUnderShortestRestToken s' =
     (case matched_at c s of
        None \<Rightarrow> lastMatchUnderShortestRestToken s
      | Some l \<Rightarrow>
          (case lastMatchUnderShortestRestToken s of
             None \<Rightarrow> Some l
           | Some b \<Rightarrow> if lm_restTokenCount l < lm_restTokenCount b then Some l else Some b))"
proof (cases c)
  case (CVisiterNextNode node a)
  with assms visiterNextNode_tracker[of parserOption node a s c' s'] show ?thesis
    by (simp add: step_def matched_at_def)
next
  case CReturn
  with assms show ?thesis by (simp add: step_def matched_at_def)
next
  case (CVisiter node)
  define s1 where "s1 = s\<lparr>callVisiterCount := callVisiterCount s + 1\<rparr>"
  have s1: "heap s1 = heap s" "scanner s1 = scanner s"
    "lastMatchUnderShortestRestToken s1 = lastMatchUnderShortestRestToken s"
    by (simp_all add: s1_def)
  from assms CVisiter have v: "visiter g parserOption node s = Some (Inr (c', s'))"
    by (simp add: step_def)
  have oc: "onCallVisiter parserOption" "onMatchNode parserOption = ParserOnMatchNode"
    by (simp_all add: parserOption_def)
  from v have "(case parser_onCallVisiter s of
                  Inl e \<Rightarrow> Some (Inl e)
                | Inr x \<Rightarrow> visiter g (parserOption\<lparr>onCallVisiter := False\<rparr>) node x)
               = Some (Inr (c', s'))"
    by (subst (asm) visiter_unhooked) (simp add: oc)
  then have body: "\<not> MAX_VISITER_CALL < callVisiterCount s + 1"
    "visiter g (parserOption\<lparr>onCallVisiter := False\<rparr>) node s1 = Some (Inr (c', s'))"
    by (auto simp: parser_onCallVisiter_cases s1_def simp del: One_nat_def split: if_splits)
  have q: "lastMatchUnderShortestRestToken s' = lastMatchUnderShortestRestToken s"
    if "quiet (parserOption\<lparr>onCallVisiter := False\<rparr>) s1 s'"
    using that s1 by (simp add: quiet_def)
  show ?thesis
  proof (cases "heap s node")
    case None
    with body(2) s1 show ?thesis by (simp add: visiter_def)
  next
    case (Some n)
    show ?thesis
    proof (cases n)
      case (ChainNode ch)
      with Some body(2) s1
        visiter_ChainNode_quiet[of "parserOption\<lparr>onCallVisiter := False\<rparr>" node s1 c' s']
      have "quiet (parserOption\<lparr>onCallVisiter := False\<rparr>) s1 s'" by (simp add: visiter_def)
      from q[OF this] Some ChainNode CVisiter show ?thesis by (simp add: matched_at_def)
    next
      case (TreeNode t)
      with Some body(2) s1
        visiter_TreeNode_quiet[of "getIndex (scanner s1)" node s1 c' s'
          "parserOption\<lparr>onCallVisiter := False\<rparr>"]
      have "quiet (parserOption\<lparr>onCallVisiter := False\<rparr>) s1 s'" by (simp add: visiter_def)
      from q[OF this] Some TreeNode CVisiter show ?thesis by (simp add: matched_at_def)
    next
      case (FunctionNode f)
      with Some body(2) s1
        visiter_FunctionNode_quiet[of g f s1 c' s' "parserOption\<lparr>onCallVisiter := False\<rparr>"]
      have "quiet (parserOption\<lparr>onCallVisiter := False\<rparr>) s1 s'" by (simp add: visiter_def)
      from q[OF this] Some FunctionNode CVisiter show ?thesis by (simp add: matched_at_def)
    next
      case (MatchNode m)
      obtain mr sc where rm: "run_match (mn_matchFunction m) (scanner s) True = (mr, sc)"
        by (cases "run_match (mn_matchFunction m) (scanner s) True")
      from Some MatchNode body(2) s1
      have pm: "parser_onMatchNode parserOption node m s1 = Some (Inr (c', s'))"
        by (simp add: visiter_def oc)
      have ma: "matched_at c s =
          (if im_match mr \<and> m_type (mn_matching m) \<noteq> TLoose
           then Some \<lparr>lm_restTokenCount = getRestTokenCount sc, lm_matchNode = node,
                       lm_token = im_token mr\<rparr>
           else None)"
        using CVisiter Some MatchNode rm by (simp add: matched_at_def)
      show ?thesis
      proof (cases "im_match mr")
        case False
        with pm rm s1 have "tryChances parserOption node (s1\<lparr>scanner := sc\<rparr>) = Some (Inr (c', s'))"
          by (simp add: parser_onMatchNode_def)
        with tryChances_quiet[of parserOption node "s1\<lparr>scanner := sc\<rparr>" c' s']
        have "lastMatchUnderShortestRestToken s' = lastMatchUnderShortestRestToken s"
          using s1 by (simp add: quiet_def)
        with ma False show ?thesis by simp
      next
        case True
        with pm rm s1 ma show ?thesis
          by (auto simp: parser_onMatchNode_def Let_def split: option.splits if_splits)
      qed
    qed
  qed
qed

lemma matches_upto_tracker:
  assumes "matches_upto g parserOption (c0, s0) ms (c, s)"
    and "lastMatchUnderShortestRestToken s0 = None"
  shows "case lastMatchUnderShortestRestToken s of
           None \<Rightarrow> ms = []
         | Some l \<Rightarrow> best_progress_in ms l"
  using assms
proof (induction ms "(c, s)" arbitrary: c s rule: matches_upto.induct)
  case none
  then show ?case by simp
next
  case (more ms c1 s1 c2 s2)
  note IH = more.hyps(2)[OF more.prems]
  note st = step_tracks[OF more.hyps(4)]
  show ?case
  proof (cases "matched_at c1 s1")
    case None
    with IH st show ?thesis by (auto split: option.splits)
  next
    case (Some l)
    show ?thesis
    proof (cases "lastMatchUnderShortestRestToken s1")
      case None
      with IH st Some show ?thesis by (auto simp: best_progress_in_single split: option.splits)
    next
      case b: (Some b)
      with IH have "best_progress_in ms b" by simp
      with st Some b show ?thesis
        by (auto simp: best_progress_in_keep best_progress_in_new split: option.splits)
    qed
  qed
qed

lemma matches_front:
  assumes "matches_upto g vo (c1, s1) ms x" and "c \<noteq> CReturn" and "step g vo c s = Some (Inr (c1, s1))"
  shows "matches_upto g vo (c, s) ((case matched_at c s of None \<Rightarrow> [] | Some l \<Rightarrow> [l]) @ ms) x"
  using assms
proof (induction rule: matches_upto.induct)
  case none
  from matches_upto.more[OF matches_upto.none none(1,2)] show ?case by simp
next
  case (more ms c2 s2 c3 s3)
  from matches_upto.more[OF more.IH[OF more.prems] more.hyps(2,3)] show ?case by simp
qed

lemma run_matches_aux:
  assumes a: "run g vo c s = Some y"
  shows "\<forall>s'. y = Inr s' \<longrightarrow> (\<exists>ms. matches_upto g vo (c, s) ms (CReturn, s'))"
proof (induction rule: run.raw_induct[OF _ a])
  case (1 run' g vo c s y)
  show ?case
  proof (intro allI impI)
    fix s' assume y: "y = Inr s'"
    show "\<exists>ms. matches_upto g vo (c, s) ms (CReturn, s')"
    proof (cases "c = CReturn")
      case True
      with 1(2) y show ?thesis by (auto intro: matches_upto.none)
    next
      case False
      with 1(2) y obtain c1 s1 where st: "step g vo c s = Some (Inr (c1, s1))"
        and r: "run' g vo c1 s1 = Some (Inr s')"
        by (auto split: option.splits sum.splits)
      from 1(1)[OF r] obtain ms where "matches_upto g vo (c1, s1) ms (CReturn, s')" by blast
      from matches_front[OF this False st] show ?thesis by blast
    qed
  qed
qed

lemma run_matches:
  "run g vo c s = Some (Inr s') \<Longrightarrow> \<exists>ms. matches_upto g vo (c, s) ms (CReturn, s')"
  using run_matches_aux by blast


text \<open>
  C2: a parse that returns without success has an error, and the error is determined by
  the terminal matches of its traversal that are not loose. When there is none the error
  token is absent and the reason \<open>incomplete\<close>. Otherwise the best-progress match is the
  first of those that leave the fewest tokens (it is the match the engine has recorded):
  with \<open>t\<close> its token, the error token is the token after \<open>t\<close> and the reason \<open>wrong\<close> when
  that token exists, and otherwise the token is \<open>t\<close> and the reason \<open>incomplete\<close>.
\<close>
theorem parse_error_from_best_progress:
  assumes "getParser g root parserMap = Some (Inr p)" and "rootChainNode p = Some rootNode"
    and "createParser g root parserMap tokens cursorIndex = Some (Inr (r, s))"
    and "\<not> r_success r"
  shows "\<exists>ms sf e.
           matches_upto g parserOption
             (CVisiter rootNode, parse_init tokens cursorIndex rootNode p) ms (CReturn, sf) \<and>
           r_error r = Some e \<and>
           (ms = [] \<longrightarrow>
              lastMatchUnderShortestRestToken s = None \<and>
              error_token e = None \<and> error_reason e = Incomplete) \<and>
           (ms \<noteq> [] \<longrightarrow> (\<exists>l. best_progress_in ms l)) \<and>
           (\<forall>l. best_progress_in ms l \<longrightarrow>
              lastMatchUnderShortestRestToken s = Some l \<and>
              (case lm_token l of
                 None \<Rightarrow> error_token e = None \<and> error_reason e = Incomplete
               | Some t \<Rightarrow>
                   if t + 1 < length tokens
                   then error_token e = Some (t + 1) \<and> error_reason e = Wrong
                   else error_token e = Some t \<and> error_reason e = Incomplete))"
proof -
  let ?s0 = "parse_init tokens cursorIndex rootNode p"
  from createParser_phases[OF assms(1-3)] obtain s2 nodes s5 err where
    run: "run g parserOption (CVisiter rootNode) ?s0 = Some (Inr s2)"
    and nm: "parse_nextMatchNodes g tokens cursorIndex s2 = Some (Inr (nodes, s5))"
    and er: "parse_error_of g tokens rootNode s5 = Some (Inr (err, s))"
    and r: "r = \<lparr>r_success = success s, r_ast = result_ast s, r_callVisiterCount = callVisiterCount s,
          r_nextMatchings = List.map_filter (matching_of s) (rev nodes),
          r_error = err, r_tokens = tokens\<rparr>"
    by blast
  from parse_nextMatchNodes_frame[OF nm] parse_error_of_frame[OF er]
  have fr: "success s = success s5" "lastMatchUnderShortestRestToken s = lastMatchUnderShortestRestToken s2"
    and e: "if success s5 then err = None
            else (\<exists>sugg. err = Some (make_error \<lparr>sc_tokens = tokens, sc_index = 0\<rparr>
                                     (lastMatchUnderShortestRestToken s) sugg))"
    by (auto simp: probed_def closure_same_def)
  from assms(4) r fr have "\<not> success s5" by simp
  with e obtain sugg where err: "err = Some (make_error \<lparr>sc_tokens = tokens, sc_index = 0\<rparr>
                             (lastMatchUnderShortestRestToken s) sugg)" by auto
  define e0 where "e0 = make_error \<lparr>sc_tokens = tokens, sc_index = 0\<rparr>
                             (lastMatchUnderShortestRestToken s) sugg"
  from run_matches[OF run] obtain ms where
    ms: "matches_upto g parserOption (CVisiter rootNode, ?s0) ms (CReturn, s2)" by blast
  from matches_upto_tracker[OF ms parse_init_facts(3)] fr(2)
  have tr: "case lastMatchUnderShortestRestToken s of
              None \<Rightarrow> ms = []
            | Some l \<Rightarrow> best_progress_in ms l" by simp
  have none: "lastMatchUnderShortestRestToken s = None" if "ms = []"
    using tr that by (auto simp: best_progress_in_def split: option.splits)
  have some: "lastMatchUnderShortestRestToken s = Some l" if "best_progress_in ms l" for l
  proof (cases "lastMatchUnderShortestRestToken s")
    case None
    with tr that show ?thesis by (simp add: best_progress_in_def)
  next
    case (Some b)
    with tr have "best_progress_in ms b" by simp
    from best_progress_in_unique[OF this that] Some show ?thesis by simp
  qed
  have ex: "\<exists>l. best_progress_in ms l" if "ms \<noteq> []"
    using tr that by (auto split: option.splits)
  have "r_error r = Some e0" using r err by (simp add: e0_def)
  moreover have "lastMatchUnderShortestRestToken s = None \<and>
      error_token e0 = None \<and> error_reason e0 = Incomplete" if "ms = []"
    using none[OF that] by (simp add: e0_def make_error_def)
  moreover have "lastMatchUnderShortestRestToken s = Some l \<and>
      (case lm_token l of
         None \<Rightarrow> error_token e0 = None \<and> error_reason e0 = Incomplete
       | Some t \<Rightarrow>
           if t + 1 < length tokens
           then error_token e0 = Some (t + 1) \<and> error_reason e0 = Wrong
           else error_token e0 = Some t \<and> error_reason e0 = Incomplete)"
    if "best_progress_in ms l" for l
    using some[OF that]
    by (auto simp: e0_def make_error_def getNextFromToken_def split: option.splits)
  ultimately show ?thesis using ms ex by blast
qed

theorem parse_error_from_best_progress_witness:
  "\<exists>r s e ms l.
     createParser expr_grammar ''root'' None a_plus_x 5 = Some (Inr (r, s)) \<and>
     \<not> r_success r \<and> r_error r = Some e \<and> error_token e = Some 2 \<and> error_reason e = Wrong \<and>
     best_progress_in ms l \<and> lm_token l = Some 1 \<and> lm_restTokenCount l = 1"
proof -
  obtain p where gp: "getParser expr_grammar ''root'' None = Some (Inr p)"
    and rn: "rootChainNode p = Some 0"
    by (simp add: evals expr_grammar_def)
  obtain r s l where cp: "createParser expr_grammar ''root'' None a_plus_x 5 = Some (Inr (r, s))"
    and rs: "\<not> r_success r"
    and lm: "lastMatchUnderShortestRestToken s = Some l" "lm_token l = Some 1"
      "lm_restTokenCount l = 1"
    by (simp add: evals expr_grammar_def a_plus_x_def)
  from parse_error_from_best_progress[OF gp rn cp rs] obtain ms sf e where
    a: "r_error r = Some e"
      "ms = [] \<longrightarrow> lastMatchUnderShortestRestToken s = None \<and>
          error_token e = None \<and> error_reason e = Incomplete"
      "ms \<noteq> [] \<longrightarrow> (\<exists>l. best_progress_in ms l)"
      "\<forall>l. best_progress_in ms l \<longrightarrow>
              lastMatchUnderShortestRestToken s = Some l \<and>
              (case lm_token l of
                 None \<Rightarrow> error_token e = None \<and> error_reason e = Incomplete
               | Some t \<Rightarrow>
                   if t + 1 < length a_plus_x
                   then error_token e = Some (t + 1) \<and> error_reason e = Wrong
                   else error_token e = Some t \<and> error_reason e = Incomplete)"
    by blast
  from a(2) lm(1) have "ms \<noteq> []" by auto
  with a(3) obtain l' where l': "best_progress_in ms l'" by blast
  from a(4)[rule_format, OF l', THEN conjunct1] lm(1) have "l' = l" by simp
  with l' have bl: "best_progress_in ms l" by simp
  from a(4)[rule_format, OF bl, THEN conjunct2] lm(2)
  have "error_token e = Some 2 \<and> error_reason e = Wrong"
    by (simp add: a_plus_x_def)
  with cp rs a(1) bl lm(2,3) show ?thesis by blast
qed

lemma alloc_ok_initial: "alloc_ok initial_state"
  by (simp add: alloc_ok_def initial_state_def)

lemma getParser_alloc_ok:
  assumes "getParser g root parserMap = Some (Inr p)"
    and "case parserMap of None \<Rightarrow> True | Some p0 \<Rightarrow> alloc_ok p0"
  shows "alloc_ok p"
proof (cases parserMap)
  case (Some p0)
  with assms show ?thesis by (simp add: getParser_def)
next
  case None
  with assms(1) obtain r s1 where
    c: "chainNodeFactory (fst (g root)) (snd (g root)) None None 0 initial_state = Some (Inr (r, s1))"
    and p: "p = s1\<lparr>rootChainNode := Some r\<rparr>"
    by (auto simp: getParser_def split: option.splits sum.splits)
  from chainNodeFactory_graph_step[of "fst (g root)" "snd (g root)" None None 0 initial_state r s1] c
    alloc_ok_initial
  have "alloc_ok s1" by (simp add: graph_step_def)
  then show ?thesis by (simp add: p alloc_ok_def)
qed

lemma matching_of_found_ok:
  assumes "found_ok s nodes" and "m \<in> set (List.map_filter (matching_of s) xs)" and "set xs \<subseteq> set nodes"
  shows "\<not> loose_true m"
proof -
  from assms(2) obtain r where r: "r \<in> set xs" "matching_of s r = Some m"
    by (auto simp: List.map_filter_def)
  with assms(1,3) obtain mm where "heap s r = Some (MatchNode mm)" "\<not> loose_true (mn_matching mm)"
    by (auto simp: found_ok_def)
  with r(2) show ?thesis by (simp add: matching_of_def)
qed

text \<open>
  C8: the \<open>onMatchNode\<close> of the probe passes a loose terminal of value \<open>true\<close> on to
  \<^verbatim>\<open>visiterNextNode\<close> with the state as it is, and no parse has the matching of a loose
  \<open>true\<close> among its next matchings. The store stays in address order, so the parser can be
  used for the next parse.
\<close>
theorem loose_true_never_in_nextMatchings:
  assumes "createParser g root parserMap tokens cursorIndex = Some (Inr (r, s))"
    and "case parserMap of None \<Rightarrow> True | Some p0 \<Rightarrow> alloc_ok p0"
  shows "\<lparr>m_type = TLoose, m_value = VBoolean True\<rparr> \<notin> set (r_nextMatchings r) \<and> alloc_ok s \<and>
         (\<forall>vo node m st. m_type (mn_matching m) = TLoose \<longrightarrow> m_value (mn_matching m) = VBoolean True \<longrightarrow>
            probe_onMatchNode vo node m st = Some (Inr (CVisiterNextNode node ANull, st)))"
proof -
  from assms(1) obtain p rootNode where gp: "getParser g root parserMap = Some (Inr p)"
    and rn: "rootChainNode p = Some rootNode"
    by (auto simp: createParser_def split: option.splits sum.splits)
  let ?s0 = "parse_init tokens cursorIndex rootNode p"
  from createParser_phases[OF gp rn assms(1)] obtain s2 nodes s5 err where
    run: "run g parserOption (CVisiter rootNode) ?s0 = Some (Inr s2)"
    and nm: "parse_nextMatchNodes g tokens cursorIndex s2 = Some (Inr (nodes, s5))"
    and er: "parse_error_of g tokens rootNode s5 = Some (Inr (err, s))"
    and r: "r = \<lparr>r_success = success s, r_ast = result_ast s, r_callVisiterCount = callVisiterCount s,
          r_nextMatchings = List.map_filter (matching_of s) (rev nodes),
          r_error = err, r_tokens = tokens\<rparr>"
    by blast
  from getParser_alloc_ok[OF gp assms(2)] have "alloc_ok ?s0" by (rule parse_init_facts(4))
  with run_frame[OF run] have a2: "alloc_ok s2" by (simp add: based_def)
  with parse_nextMatchNodes_frame[OF nm] have a5: "alloc_ok s5" and f5: "found_ok s5 nodes"
    by (simp_all add: based_def)
  from parse_error_of_frame[OF er] have "probed s5 s" by simp
  from probed_keeps[OF this a5] f5 have a: "alloc_ok s" and f: "found_ok s nodes"
    by (auto intro: found_ok_keeps)
  have "\<not> loose_true m" if "m \<in> set (r_nextMatchings r)" for m
    using matching_of_found_ok[OF f, of m "rev nodes"] that by (simp add: r)
  from this[of "\<lparr>m_type = TLoose, m_value = VBoolean True\<rparr>"]
  have "\<lparr>m_type = TLoose, m_value = VBoolean True\<rparr> \<notin> set (r_nextMatchings r)"
    by (auto simp: loose_true_def)
  with a show ?thesis by (simp add: probe_onMatchNode_def)
qed

theorem loose_true_never_in_nextMatchings_witness:
  "\<exists>r s. createParser optional_grammar ''root'' None
            [\<lparr>tok_value = ''a'', tok_start = 0, tok_end = 1\<rparr>] 2 = Some (Inr (r, s)) \<and>
     r_nextMatchings r = [\<lparr>m_type = TString, m_value = VString ''b''\<rparr>] \<and>
     \<lparr>m_type = TLoose, m_value = VBoolean True\<rparr> \<notin> set (r_nextMatchings r) \<and> alloc_ok s"
proof -
  obtain r s where cp: "createParser optional_grammar ''root'' None
            [\<lparr>tok_value = ''a'', tok_start = 0, tok_end = 1\<rparr>] 2 = Some (Inr (r, s))"
    and nm: "r_nextMatchings r = [\<lparr>m_type = TString, m_value = VString ''b''\<rparr>]"
    by (simp add: evals optional_grammar_def)
  from loose_true_never_in_nextMatchings[OF cp] cp nm show ?thesis by simp
qed

subsection \<open>What the probe records\<close>

text \<open>
  C10: in the probe, the visit of a terminal that is not the loose terminal of value
  \<open>true\<close> appends the terminal to the result list and then runs \<^verbatim>\<open>tryChances\<close>. The loose
  terminal of value \<open>false\<close> is such a terminal: for a choice between \<open>false\<close> and a literal
  and the empty input, its matching is among the next matchings and among the suggestions
  of the error.
\<close>
theorem probe_records_terminals:
  "(heap s node = Some (MatchNode m) \<longrightarrow>
      \<not> (m_type (mn_matching m) = TLoose \<and> m_value (mn_matching m) = VBoolean True) \<longrightarrow>
      visiter g probeOption node s =
        tryChances probeOption node (s\<lparr>nextMatchNodes := nextMatchNodes s @ [node]\<rparr>)) \<and>
   (\<exists>r st e. createParser loose_grammar ''root'' None [] 0 = Some (Inr (r, st)) \<and>
      \<lparr>m_type = TLoose, m_value = VBoolean False\<rparr> \<in> set (r_nextMatchings r) \<and>
      r_error r = Some e \<and> \<lparr>m_type = TLoose, m_value = VBoolean False\<rparr> \<in> set (suggestions e))"
proof -
  have "\<exists>r st e. createParser loose_grammar ''root'' None [] 0 = Some (Inr (r, st)) \<and>
      \<lparr>m_type = TLoose, m_value = VBoolean False\<rparr> \<in> set (r_nextMatchings r) \<and>
      r_error r = Some e \<and> \<lparr>m_type = TLoose, m_value = VBoolean False\<rparr> \<in> set (suggestions e)"
    by (simp add: evals loose_grammar_def)
  then show ?thesis
    by (auto simp: visiter_def probeOption_def probe_onMatchNode_def)
qed

theorem probe_records_terminals_witness:
  "visiter loose_grammar probeOption 2 loose_parser =
     tryChances probeOption 2 (loose_parser\<lparr>nextMatchNodes := nextMatchNodes loose_parser @ [2]\<rparr>) \<and>
   (\<exists>m. heap loose_parser 2 = Some (MatchNode m) \<and>
        mn_matching m = \<lparr>m_type = TLoose, m_value = VBoolean False\<rparr>)"
proof -
  obtain m where h: "heap loose_parser 2 = Some (MatchNode m)"
    and m: "mn_matching m = \<lparr>m_type = TLoose, m_value = VBoolean False\<rparr>"
    by (simp add: loose_parser_def evals loose_grammar_def)
  from probe_records_terminals[of loose_parser 2 m loose_grammar] h m show ?thesis by simp
qed

subsection \<open>The related rules of a published FIRST set\<close>

text \<open>
  C5: a rule \<open>A\<close> whose body starts with the rule \<open>B\<close>. When \<open>B\<close> is expanded its candidate
  list holds terminals only and is published as its FIRST set, and the related-set records
  \<open>A\<close> for \<open>B\<close>; yet after the parse the candidates of \<open>A\<close> still hold the name \<open>B\<close> and \<open>A\<close>
  has no FIRST set: the related rule was not resolved again.
\<close>
theorem related_rules_not_resolved:
  "\<exists>r s b. createParser first_grammar ''root'' None b_x 3 = Some (Inr (r, s)) \<and> r_success r \<and>
     firstSet s ''B'' = Some [b] \<and> relatedSet s ''B'' = Some [''A''] \<and>
     firstSet s ''A'' = None \<and> firstOrFunctionSet s ''A'' = Some (Some [FName ''B''])"
  by (simp add: evals first_grammar_def b_x_def)

subsection \<open>The call budget\<close>

text \<open>
  A visit of the probe enters \<^verbatim>\<open>visiter\<close> and leaves both counters as they are, also when
  the counter stands at the maximum.
\<close>
theorem probe_visit_not_counted:
  "counters_after (visiter expr_grammar probeOption 0 expr_parser) = Some (Inr (0, 0)) \<and>
   counters_after (visiter expr_grammar probeOption 0
      (expr_parser\<lparr>callVisiterCount := MAX_VISITER_CALL\<rparr>)) = Some (Inr (MAX_VISITER_CALL, 0))"
  by (simp add: counters_after_def expr_parser_def expr_grammar_def evals)

text \<open>
  C6: in the traversal of a parse (the options of \<^verbatim>\<open>createParser\<close>), \<^verbatim>\<open>visiter\<close> raises the
  budget error exactly when its counter plus one exceeds 10000000 and otherwise runs with
  the counter incremented, as if there were no guard; likewise \<^verbatim>\<open>visiterNextNode\<close> with
  its counter; neither raises the other's error. The traversals of the probe run without
  the two callbacks: they raise no budget error and leave both counters as they are.
\<close>
theorem call_budget_guard:
  "((visiter g parserOption node s = Some (Inl CallVisiterExceeded))
      = (MAX_VISITER_CALL < callVisiterCount s + 1)) \<and>
   ((visiterNextNode parserOption node a s = Some (Inl CallParentExceeded))
      = (MAX_VISITER_CALL < callParentCount s + 1)) \<and>
   visiter g parserOption node s \<noteq> Some (Inl CallParentExceeded) \<and>
   visiterNextNode parserOption node a s \<noteq> Some (Inl CallVisiterExceeded) \<and>
   visiter g parserOption node s =
     (if MAX_VISITER_CALL < callVisiterCount s + 1 then Some (Inl CallVisiterExceeded)
      else visiter g (parserOption\<lparr>onCallVisiter := False\<rparr>) node
             (s\<lparr>callVisiterCount := callVisiterCount s + 1\<rparr>)) \<and>
   visiterNextNode parserOption node a s =
     (if MAX_VISITER_CALL < callParentCount s + 1 then Some (Inl CallParentExceeded)
      else visiterNextNode (parserOption\<lparr>onVisiterNextNode := False\<rparr>) node a
             (s\<lparr>callParentCount := callParentCount s + 1\<rparr>)) \<and>
   MAX_VISITER_CALL = 10000000 \<and>
   visiter g probeOption node s \<noteq> Some (Inl CallVisiterExceeded) \<and>
   visiterNextNode probeOption node a s \<noteq> Some (Inl CallParentExceeded) \<and>
   (\<forall>c c' s'. step g probeOption c s = Some (Inr (c', s')) \<longrightarrow>
      callVisiterCount s' = callVisiterCount s \<and> callParentCount s' = callParentCount s)"
proof -
  have v: "visiter g parserOption node s =
     (if MAX_VISITER_CALL < callVisiterCount s + 1 then Some (Inl CallVisiterExceeded)
      else visiter g (parserOption\<lparr>onCallVisiter := False\<rparr>) node
             (s\<lparr>callVisiterCount := callVisiterCount s + 1\<rparr>))"
    by (subst visiter_unhooked) (simp add: parser_onCallVisiter_cases parserOption_def)
  have n: "visiterNextNode parserOption node a s =
     (if MAX_VISITER_CALL < callParentCount s + 1 then Some (Inl CallParentExceeded)
      else visiterNextNode (parserOption\<lparr>onVisiterNextNode := False\<rparr>) node a
             (s\<lparr>callParentCount := callParentCount s + 1\<rparr>))"
    by (subst visiterNextNode_unhooked) (simp add: parser_onVisiterNextNode_cases parserOption_def)
  have on: "onCallVisiter parserOption" "onVisiterNextNode parserOption"
    "\<not> onCallVisiter probeOption" "\<not> onVisiterNextNode probeOption"
    by (simp_all add: parserOption_def probeOption_def)
  from visiter_frame[of g parserOption node s _ _ CallVisiterExceeded] on
  have 1: "(visiter g parserOption node s = Some (Inl CallVisiterExceeded))
      = (MAX_VISITER_CALL < callVisiterCount s + 1)"
    using v by auto
  from visiterNextNode_frame[of parserOption node a s _ _ CallParentExceeded] on
  have 2: "(visiterNextNode parserOption node a s = Some (Inl CallParentExceeded))
      = (MAX_VISITER_CALL < callParentCount s + 1)"
    using n by auto
  from visiter_frame[of g parserOption node s _ _ CallParentExceeded]
  have 3: "visiter g parserOption node s \<noteq> Some (Inl CallParentExceeded)" by auto
  from visiterNextNode_frame[of parserOption node a s _ _ CallVisiterExceeded]
  have 4: "visiterNextNode parserOption node a s \<noteq> Some (Inl CallVisiterExceeded)" by auto
  from visiter_frame[of g probeOption node s _ _ CallVisiterExceeded] on
  have 5: "visiter g probeOption node s \<noteq> Some (Inl CallVisiterExceeded)" by auto
  from visiterNextNode_frame[of probeOption node a s _ _ CallParentExceeded] on
  have 6: "visiterNextNode probeOption node a s \<noteq> Some (Inl CallParentExceeded)" by auto
  have 7: "callVisiterCount s' = callVisiterCount s \<and> callParentCount s' = callParentCount s"
    if "step g probeOption c s = Some (Inr (c', s'))" for c c' s'
    using step_frame[OF that] by (simp add: closure_same_def)
  from 1 2 3 4 5 6 7 v n show ?thesis by (simp add: MAX_VISITER_CALL_def)
qed

theorem call_budget_guard_witness:
  "\<exists>c' s'. step expr_grammar probeOption (CVisiter 0) expr_parser = Some (Inr (c', s')) \<and>
     callVisiterCount s' = 0 \<and> callParentCount s' = 0"
proof -
  obtain c' s' where st: "step expr_grammar probeOption (CVisiter 0) expr_parser = Some (Inr (c', s'))"
    by (simp add: expr_parser_def expr_grammar_def evals)
  have z: "callVisiterCount expr_parser = 0" "callParentCount expr_parser = 0"
    by (simp_all add: expr_parser_def expr_grammar_def evals)
  from call_budget_guard[of expr_grammar 0 expr_parser ANull] st z show ?thesis by auto
qed

end
